theory Spec2Isabelle
  imports Complex_Main "HOL-Library.Word" "HOL-Library.Multiset"
begin

unbundle bit_operations_syntax

section \<open>Data model\<close>

text \<open>
  An \<^verbatim>\<open>Eigen::VectorXd\<close> is a list of reals. A \<^verbatim>\<open>double\<close> is modelled by the real number
  it denotes: rounding, infinities and NaN are outside the model. The one place where the
  source relies on an infinite value, the default \<^verbatim>\<open>best_cost\<close> of a history entry, has a
  type of its own (\<open>ecost\<close>).
\<close>

type_synonym VectorXd = "real list"

text \<open>
  \<^verbatim>\<open>class MotionPrimitive\<close> of \<^verbatim>\<open>motion_primitive_graph.h\<close>. The members carry the
  source's names without the trailing underscore. The matrix \<^verbatim>\<open>poly_coeffs_\<close> has one row
  per spatial dimension; it is kept as the column of constant terms (\<open>poly_const\<close>) and
  the rows of the remaining coefficients (\<open>poly_coeffs\<close>), since the only operation of
  the search that touches it, \<^verbatim>\<open>translate\<close>, changes the constant terms alone.
\<close>

record MotionPrimitive =
  mp_id :: int
  cost :: real
  traj_time :: real
  mp_spatial_dim :: nat
  start_state :: VectorXd
  end_state :: VectorXd
  poly_const :: "real list"
  poly_coeffs :: "real list list"

text \<open>
  \<^verbatim>\<open>class MotionPrimitiveGraph\<close>. \<open>edges\<close> is the list of the rows of \<^verbatim>\<open>edges_\<close>:
  \<open>edges ! i ! j\<close> is \<^verbatim>\<open>edges_(i, j)\<close>.
\<close>

record MotionPrimitiveGraph =
  edges :: "int list list"
  vertices :: "real list list"
  mps :: "MotionPrimitive list"
  max_state :: VectorXd
  dispersion :: real
  rho :: real
  spatial_dim :: nat
  control_space_dim :: nat
  state_dim :: nat
  num_tiles :: nat
  tiling :: bool

text \<open>
  \<^verbatim>\<open>Node2\<close>, as \<^verbatim>\<open>Expand\<close> and \<^verbatim>\<open>Search\<close> fill it. \<^verbatim>\<open>state_index\<close> is an \<^verbatim>\<open>int\<close> in the
  source; the only values stored in it are \<^verbatim>\<open>0\<close> and the loop counter of \<^verbatim>\<open>Expand\<close>.
\<close>

record Node2 =
  state_index :: nat
  state :: VectorXd
  motion_cost :: real
  heuristic_cost :: real

definition total_cost :: "Node2 \<Rightarrow> real" where
  "total_cost n = motion_cost n + heuristic_cost n"

text \<open>The value of \<^verbatim>\<open>best_cost\<close>: a double or \<^verbatim>\<open>+infinity\<close>.\<close>

datatype ecost = Fin real | PInf

fun less_ecost :: "real \<Rightarrow> ecost \<Rightarrow> bool" where
  "less_ecost c (Fin b) = (c < b)"
| "less_ecost c PInf = True"

text \<open>An entry of \<^verbatim>\<open>PathHistory\<close>: \<^verbatim>\<open>{parent_node, best_cost}\<close>.\<close>

record Info =
  parent_node :: Node2
  best_cost :: ecost

text \<open>
  Modelled from the spec: the header that declares \<^verbatim>\<open>Node2\<close> and the history entry is not
  among the sources. A default-constructed entry has \<^verbatim>\<open>best_cost = +infinity\<close>; the fields
  of its default-constructed parent node are not fixed by the spec and are never read by
  \<^verbatim>\<open>Search\<close> before they are overwritten.
\<close>

definition Node2_default :: Node2 where
  "Node2_default = \<lparr>state_index = 0, state = [], motion_cost = 0, heuristic_cost = 0\<rparr>"

definition Info_default :: Info where
  "Info_default = \<lparr>parent_node = Node2_default, best_cost = PInf\<rparr>"

text \<open>
  What can stop a call short of a result: an index outside an Eigen array or a vector
  (undefined behaviour in the source), a division by zero, and the exception of
  \<^verbatim>\<open>history.at\<close> on a missing key.
\<close>

datatype fault = IndexOutOfBounds | DivisionByZero | KeyNotFound

text \<open>
  The members of \<^verbatim>\<open>GraphSearch2\<close> that the search only reads: the graph, the collision
  check \<^verbatim>\<open>is_mp_collision_free\<close> and the \<^verbatim>\<open>heuristic\<close>, both black boxes.
\<close>

record GraphSearch2 =
  graph :: MotionPrimitiveGraph
  is_mp_collision_free :: "MotionPrimitive \<Rightarrow> bool"
  heuristic :: "VectorXd \<Rightarrow> real"

section \<open>Quantization and the hash of a state\<close>

text \<open>The conversion of a double to \<^verbatim>\<open>int\<close> (\<^verbatim>\<open>cast<int>\<close>): the fraction is discarded.
  Values outside the range of \<^verbatim>\<open>int\<close> are undefined behaviour in the source; the model
  keeps the mathematical integer.\<close>

definition cast_int :: "real \<Rightarrow> int" where
  "cast_int x = (if 0 \<le> x then \<lfloor>x\<rfloor> else - \<lfloor>- x\<rfloor>)"

text \<open>\<^verbatim>\<open>(vd * 100).cast<int>()\<close>\<close>

definition quantize :: "VectorXd \<Rightarrow> int list" where
  "quantize vd = map (\<lambda>x. cast_int (x * 100)) vd"

text \<open>
  \<^verbatim>\<open>VectorXdHash::operator()\<close>. \<^verbatim>\<open>std::size_t\<close> is a 64-bit word; \<^verbatim>\<open>std::hash<int>\<close> is
  left to the implementation by the language and is the parameter \<open>hash_int\<close>. The loop
  runs \<open>i\<close> from \<open>0\<close> to \<open>v.size()\<close>.
\<close>

function hash_loop :: "(int \<Rightarrow> 64 word) \<Rightarrow> int list \<Rightarrow> nat \<Rightarrow> 64 word \<Rightarrow> 64 word" where
  "hash_loop hash_int v i seed =
     (if i < length v
      then hash_loop hash_int v (i + 1)
             (seed XOR (hash_int (v ! i) + 0x9e3779b9 + push_bit 6 seed + drop_bit 2 seed))
      else seed)"
  by pat_completeness auto
termination
  by (relation "measure (\<lambda>(h, v, i, seed). length v - i)") auto

declare hash_loop.simps [simp del]

definition VectorXdHash :: "(int \<Rightarrow> 64 word) \<Rightarrow> VectorXd \<Rightarrow> 64 word" where
  "VectorXdHash hash_int vd = hash_loop hash_int (quantize vd) 0 0"

text \<open>The hash as the spec words it: a fold of the mixing step over the components of
  the quantized vector, once with the truncating conversion of the source and once with
  the floor the spec names.\<close>

definition mix :: "(int \<Rightarrow> 64 word) \<Rightarrow> int \<Rightarrow> 64 word \<Rightarrow> 64 word" where
  "mix hash_int x seed =
     seed XOR (hash_int x + 0x9e3779b9 + push_bit 6 seed + drop_bit 2 seed)"

definition hash_spec_trunc :: "(int \<Rightarrow> 64 word) \<Rightarrow> VectorXd \<Rightarrow> 64 word" where
  "hash_spec_trunc hash_int vd = fold (mix hash_int) (map (\<lambda>x. cast_int (x * 100)) vd) 0"

definition hash_spec_floor :: "(int \<Rightarrow> 64 word) \<Rightarrow> VectorXd \<Rightarrow> 64 word" where
  "hash_spec_floor hash_int vd = fold (mix hash_int) (map (\<lambda>x. \<lfloor>x * 100\<rfloor>) vd) 0"

section \<open>The graph\<close>

text \<open>\<^verbatim>\<open>edges_.rows()\<close> and the guarded read of \<^verbatim>\<open>edges_(i, j)\<close>.\<close>

definition edges_rows :: "MotionPrimitiveGraph \<Rightarrow> nat" where
  "edges_rows g = length (edges g)"

definition edges_at :: "MotionPrimitiveGraph \<Rightarrow> nat \<Rightarrow> nat \<Rightarrow> fault + int" where
  "edges_at g i j =
     (if i < length (edges g) \<and> j < length (edges g ! i)
      then Inr (edges g ! i ! j) else Inl IndexOutOfBounds)"

text \<open>
  Modelled from the spec: \<^verbatim>\<open>NormIndex\<close> is declared in a header that is not among the
  sources. \<open>NormIndex(state_index) = state_index mod V_norm\<close> with
  \<open>V_norm = V / num_tiles\<close> when \<open>tiling\<close> is set, and the index itself otherwise.
\<close>

definition NormIndex :: "MotionPrimitiveGraph \<Rightarrow> nat \<Rightarrow> fault + nat" where
  "NormIndex g idx =
     (if tiling g
      then (if num_tiles g = 0 \<or> edges_rows g div num_tiles g = 0 then Inl DivisionByZero
            else Inr (idx mod (edges_rows g div num_tiles g)))
      else Inr idx)"

text \<open>
  Modelled from the spec: \<^verbatim>\<open>get_mp_between_indices(to_row, from_col_norm)\<close> returns a copy
  of \<open>mps[edges(to_row, from_col_norm)]\<close>; a negative entry or one beyond the bank of
  primitives is undefined behaviour.
\<close>

definition get_mp_between_indices ::
    "MotionPrimitiveGraph \<Rightarrow> nat \<Rightarrow> nat \<Rightarrow> fault + MotionPrimitive" where
  "get_mp_between_indices g i j =
     (case edges_at g i j of
        Inl f \<Rightarrow> Inl f
      | Inr e \<Rightarrow>
          if 0 \<le> e \<and> nat e < length (mps g) then Inr (mps g ! nat e)
          else Inl IndexOutOfBounds)"

text \<open>Adding \<open>delta\<close> to the leading components of a vector; the length is kept.\<close>

definition add_head :: "real list \<Rightarrow> real list \<Rightarrow> real list" where
  "add_head delta v = map2 (+) (take (length delta) v) delta @ drop (length delta) v"

text \<open>
  Modelled from the spec: \<^verbatim>\<open>MotionPrimitive::translate\<close> is defined in a file that is not
  among the sources. \<open>delta = new_start.head(spatial_dim) - start_state.head(spatial_dim)\<close>
  is added to the first \<open>spatial_dim\<close> components of both end points and to the constant
  terms of the polynomials; higher derivatives are not touched.
\<close>

definition translate :: "MotionPrimitive \<Rightarrow> VectorXd \<Rightarrow> MotionPrimitive" where
  "translate m new_start =
     (let delta = map2 (-) (take (mp_spatial_dim m) new_start)
                           (take (mp_spatial_dim m) (start_state m))
      in m\<lparr>start_state := add_head delta (start_state m),
            end_state := add_head delta (end_state m),
            poly_const := add_head delta (poly_const m)\<rparr>)"

section \<open>The visited set and the history\<close>

text \<open>
  \<^verbatim>\<open>visited_states_\<close> is an unordered set of state vectors; the model keeps the stored
  vectors in the order of insertion. Modelled from the spec: the equality of its keys
  (declared in the missing header) holds when the quantized vectors are equal, the
  quantization being that of the hash.
\<close>

definition visited_find :: "VectorXd list \<Rightarrow> VectorXd \<Rightarrow> bool" where
  "visited_find vs x = (quantize x \<in> set (map quantize vs))"

definition visited_insert :: "VectorXd list \<Rightarrow> VectorXd \<Rightarrow> VectorXd list" where
  "visited_insert vs x = (if visited_find vs x then vs else vs @ [x])"

text \<open>
  Modelled from the spec: \<^verbatim>\<open>PathHistory\<close> is declared in the missing header, with the
  equality of its keys. The spec keys the history by the state under the same quantized
  equivalence as the visited set: the model is a map keyed by the quantized state.
\<close>

type_synonym PathHistory = "int list \<rightharpoonup> Info"

text \<open>\<^verbatim>\<open>history[x]\<close>: a missing entry is created, default-constructed, by the read.\<close>

definition history_index :: "PathHistory \<Rightarrow> VectorXd \<Rightarrow> Info \<times> PathHistory" where
  "history_index h x =
     (case h (quantize x) of
        None \<Rightarrow> (Info_default, h(quantize x \<mapsto> Info_default))
      | Some e \<Rightarrow> (e, h))"

section \<open>Expansion\<close>

text \<open>\<^verbatim>\<open>state_pos_within\<close>\<close>

definition state_pos_within :: "VectorXd \<Rightarrow> VectorXd \<Rightarrow> nat \<Rightarrow> real \<Rightarrow> bool" where
  "state_pos_within p1 p2 sd d =
     (sum_list (map (\<lambda>x. x * x) (map2 (-) (take sd p1) (take sd p2))) < d * d)"

text \<open>
  The body of the loop of \<^verbatim>\<open>Expand\<close> (and of \<^verbatim>\<open>ExpandPar\<close>) at row \<open>i\<close>, for the
  normalized column \<open>j\<close>: \<open>Inr None\<close> is a \<^verbatim>\<open>continue\<close>, \<open>Inr (Some n)\<close> a successor.
\<close>

definition expand_body ::
    "GraphSearch2 \<Rightarrow> VectorXd list \<Rightarrow> Node2 \<Rightarrow> nat \<Rightarrow> nat \<Rightarrow> fault + Node2 option" where
  "expand_body gs visited node j i =
     (case edges_at (graph gs) i j of
        Inl f \<Rightarrow> Inl f
      | Inr e \<Rightarrow>
          if e < 0 then Inr None
          else (case get_mp_between_indices (graph gs) i j of
                  Inl f \<Rightarrow> Inl f
                | Inr mp0 \<Rightarrow>
                    let mp = translate mp0 (state node) in
                    if visited_find visited (end_state mp) then Inr None
                    else if \<not> is_mp_collision_free gs mp then Inr None
                    else Inr (Some \<lparr>state_index = i,
                                    state = end_state mp,
                                    motion_cost = motion_cost node + cost mp,
                                    heuristic_cost = heuristic gs (end_state mp)\<rparr>)))"

text \<open>The loop over a list of rows, in the order of the list.\<close>

fun expand_rows ::
    "GraphSearch2 \<Rightarrow> VectorXd list \<Rightarrow> Node2 \<Rightarrow> nat \<Rightarrow> nat list \<Rightarrow> fault + Node2 list" where
  "expand_rows gs visited node j [] = Inr []"
| "expand_rows gs visited node j (i # rows) =
     (case expand_body gs visited node j i of
        Inl f \<Rightarrow> Inl f
      | Inr r \<Rightarrow>
          (case expand_rows gs visited node j rows of
             Inl f \<Rightarrow> Inl f
           | Inr nodes \<Rightarrow> Inr ((case r of None \<Rightarrow> [] | Some n \<Rightarrow> [n]) @ nodes)))"

text \<open>\<^verbatim>\<open>GraphSearch2::Expand\<close>\<close>

definition Expand :: "GraphSearch2 \<Rightarrow> VectorXd list \<Rightarrow> Node2 \<Rightarrow> fault + Node2 list" where
  "Expand gs visited node =
     (case NormIndex (graph gs) (state_index node) of
        Inl f \<Rightarrow> Inl f
      | Inr j \<Rightarrow> expand_rows gs visited node j [0 ..< edges_rows (graph gs)])"

text \<open>
  \<^verbatim>\<open>GraphSearch2::ExpandPar\<close>. What the threads do concurrently is not modelled; what the
  result depends on is: \<^verbatim>\<open>parallel_for\<close> cuts \<open>[0, num_states)\<close> into blocked ranges
  \<open>[b, e)\<close>, every worker runs the loop over the ranges it is given, one after the other,
  appending to its own vector, and the vectors are concatenated. A schedule is the list,
  per worker, of the ranges it ran.
\<close>

type_synonym schedule = "(nat \<times> nat) list list"

definition schedule_rows :: "schedule \<Rightarrow> nat list" where
  "schedule_rows sch = concat (map (\<lambda>(b, e). [b ..< e]) (concat sch))"

definition valid_schedule :: "nat \<Rightarrow> schedule \<Rightarrow> bool" where
  "valid_schedule num_states sch = (mset (schedule_rows sch) = mset [0 ..< num_states])"

definition ExpandPar ::
    "GraphSearch2 \<Rightarrow> schedule \<Rightarrow> VectorXd list \<Rightarrow> Node2 \<Rightarrow> fault + Node2 list" where
  "ExpandPar gs sch visited node =
     (case NormIndex (graph gs) (state_index node) of
        Inl f \<Rightarrow> Inl f
      | Inr j \<Rightarrow> expand_rows gs visited node j (schedule_rows sch))"

section \<open>Path reconstruction\<close>

text \<open>\<^verbatim>\<open>GraphSearch2::GetPrimitiveBetween\<close>\<close>

definition GetPrimitiveBetween :: "GraphSearch2 \<Rightarrow> Node2 \<Rightarrow> Node2 \<Rightarrow> fault + MotionPrimitive" where
  "GetPrimitiveBetween gs start_node end_node =
     (case NormIndex (graph gs) (state_index start_node) of
        Inl f \<Rightarrow> Inl f
      | Inr start_index \<Rightarrow>
          (case get_mp_between_indices (graph gs) (state_index end_node) start_index of
             Inl f \<Rightarrow> Inl f
           | Inr mp \<Rightarrow> Inr (translate mp (state start_node))))"

text \<open>
  The loop of \<^verbatim>\<open>RecoverPath\<close>. \<^verbatim>\<open>ros::ok()\<close> answers true until the host asks for a
  shutdown and false from then on; the first argument is the number of polls that are
  still answered true.
\<close>

fun recover_loop ::
    "GraphSearch2 \<Rightarrow> nat \<Rightarrow> PathHistory \<Rightarrow> Node2 \<Rightarrow> MotionPrimitive list
      \<Rightarrow> fault + MotionPrimitive list" where
  "recover_loop gs 0 hist curr_node path_mps = Inr path_mps"
| "recover_loop gs (Suc ok) hist curr_node path_mps =
     (if motion_cost curr_node = 0 then Inr path_mps
      else (case hist (quantize (state curr_node)) of
              None \<Rightarrow> Inl KeyNotFound
            | Some e \<Rightarrow>
                (case GetPrimitiveBetween gs (parent_node e) curr_node of
                   Inl f \<Rightarrow> Inl f
                 | Inr mp \<Rightarrow> recover_loop gs ok hist (parent_node e) (path_mps @ [mp]))))"

definition RecoverPath ::
    "GraphSearch2 \<Rightarrow> nat \<Rightarrow> PathHistory \<Rightarrow> Node2 \<Rightarrow> fault + MotionPrimitive list" where
  "RecoverPath gs ok hist end_node =
     (case recover_loop gs ok hist end_node [] of
        Inl f \<Rightarrow> Inl f
      | Inr path_mps \<Rightarrow> Inr (rev path_mps))"

section \<open>Search\<close>

text \<open>
  The min-heap \<^verbatim>\<open>pq\<close> is the list of its entries in the order they were pushed;
  \<^verbatim>\<open>top\<close> is an entry of least \<^verbatim>\<open>total_cost\<close>, the earliest pushed among equals.
\<close>

definition pq_top :: "Node2 list \<Rightarrow> Node2" where
  "pq_top q = arg_min_list total_cost q"

definition pq_pop :: "Node2 list \<Rightarrow> Node2 list" where
  "pq_pop q = remove1 (pq_top q) q"

definition pq_push :: "Node2 list \<Rightarrow> Node2 \<Rightarrow> Node2 list" where
  "pq_push q n = q @ [n]"

text \<open>
  The state of a call of \<^verbatim>\<open>Search\<close>: the two mutable members \<^verbatim>\<open>visited_states_\<close> and
  \<^verbatim>\<open>timings\<close>, the locals \<^verbatim>\<open>pq\<close> and \<^verbatim>\<open>history\<close>, and two fields that only record the
  run: \<open>expanded\<close>, the nodes passed to \<^verbatim>\<open>Expand\<close> or \<^verbatim>\<open>ExpandPar\<close> so far, and \<open>reads\<close>,
  the number of timer readings taken.
\<close>

record search_state =
  visited_states :: "VectorXd list"
  timings :: "string \<rightharpoonup> real"
  pq :: "Node2 list"
  history :: PathHistory
  expanded :: "Node2 list"
  reads :: nat

text \<open>
  What the host decides during a call: \<open>wall k\<close> is the \<open>k\<close>-th reading of the timer, and
  \<open>sched k\<close> the schedule of the \<open>k\<close>-th parallel expansion.
\<close>

record host =
  wall :: "nat \<Rightarrow> real"
  sched :: "nat \<Rightarrow> schedule"

text \<open>\<^verbatim>\<open>timings[label] += Elapsed(timer)\<close>\<close>

definition add_timing :: "host \<Rightarrow> string \<Rightarrow> search_state \<Rightarrow> search_state" where
  "add_timing hs label s =
     s\<lparr>timings := (timings s)(label \<mapsto>
          (case timings s label of None \<Rightarrow> 0 | Some t \<Rightarrow> t) + wall hs (reads s)),
       reads := reads s + 1\<rparr>"

text \<open>The body of the loop over \<^verbatim>\<open>next_nodes\<close>.\<close>

definition relax :: "host \<Rightarrow> Node2 \<Rightarrow> search_state \<Rightarrow> Node2 \<Rightarrow> search_state" where
  "relax hs curr_node s next_node =
     (let (e, h) = history_index (history s) (state next_node) in
      if less_ecost (motion_cost next_node) (best_cost e)
      then (add_timing hs ''astar_push'' (s\<lparr>pq := pq_push (pq s) next_node\<rparr>))
             \<lparr>history := h(quantize (state next_node) \<mapsto>
                 \<lparr>parent_node = curr_node, best_cost = Fin (motion_cost next_node)\<rparr>)\<rparr>
      else s\<lparr>history := h\<rparr>)"

text \<open>
  The body of the \<^verbatim>\<open>while\<close> loop of \<^verbatim>\<open>Search\<close>, entered with a queue that is not
  empty. \<open>Inl\<close> leaves the function with a result (the path of \<^verbatim>\<open>RecoverPath\<close>, which
  goes on polling \<^verbatim>\<open>ros::ok()\<close> with the \<open>ok\<close> polls that are left, or a fault);
  \<open>Inr\<close> goes round the loop again.
\<close>

definition search_body ::
    "GraphSearch2 \<Rightarrow> host \<Rightarrow> VectorXd \<Rightarrow> real \<Rightarrow> bool \<Rightarrow> nat \<Rightarrow> search_state
      \<Rightarrow> ((fault + MotionPrimitive list) \<times> search_state) + search_state" where
  "search_body gs hs end_st d parallel ok s =
     (let curr_node = pq_top (pq s) in
      if state_pos_within (state curr_node) end_st (spatial_dim (graph gs)) d
      then Inl (RecoverPath gs ok (history s) curr_node, s)
      else
        let s1 = add_timing hs ''astar_pop'' (s\<lparr>pq := pq_pop (pq s)\<rparr>) in
        if visited_find (visited_states s1) (state curr_node) then Inr s1
        else
          let s2 = s1\<lparr>visited_states := visited_insert (visited_states s1) (state curr_node),
                      expanded := expanded s1 @ [curr_node]\<rparr> in
          (case (if parallel
                 then ExpandPar gs (sched hs (length (expanded s1))) (visited_states s2) curr_node
                 else Expand gs (visited_states s2) curr_node) of
             Inl f \<Rightarrow> Inl (Inl f, s2)
           | Inr next_nodes \<Rightarrow>
               Inr (foldl (relax hs curr_node) (add_timing hs ''astar_expand'' s2) next_nodes)))"

text \<open>
  The \<^verbatim>\<open>while\<close> loop of \<^verbatim>\<open>Search\<close>. The first argument counts the polls of \<^verbatim>\<open>ros::ok()\<close>
  that are still answered true; the poll is made only when the queue is not empty.
\<close>

fun search_loop ::
    "GraphSearch2 \<Rightarrow> host \<Rightarrow> VectorXd \<Rightarrow> real \<Rightarrow> bool \<Rightarrow> nat \<Rightarrow> search_state
      \<Rightarrow> (fault + MotionPrimitive list) \<times> search_state" where
  "search_loop gs hs end_st d parallel 0 s = (Inr [], s)"
| "search_loop gs hs end_st d parallel (Suc ok) s =
     (if pq s = [] then (Inr [], s)
      else (case search_body gs hs end_st d parallel ok s of
              Inl r \<Rightarrow> r
            | Inr s' \<Rightarrow> search_loop gs hs end_st d parallel ok s'))"

text \<open>
  \<^verbatim>\<open>GraphSearch2::Search\<close>. \<open>members\<close> holds \<^verbatim>\<open>visited_states_\<close> and \<^verbatim>\<open>timings\<close> as the
  previous call left them; the state at the return is given back with the result.
\<close>

definition Search ::
    "GraphSearch2 \<Rightarrow> host \<Rightarrow> nat \<Rightarrow> search_state \<Rightarrow> VectorXd \<Rightarrow> VectorXd \<Rightarrow> real \<Rightarrow> bool
      \<Rightarrow> (fault + MotionPrimitive list) \<times> search_state" where
  "Search gs hs ok members start_st end_st distance_threshold parallel =
     (let s0 = members\<lparr>visited_states := [], timings := Map.empty, pq := [],
                        history := Map.empty, expanded := [], reads := 0\<rparr> in
      if state_pos_within start_st end_st (spatial_dim (graph gs)) distance_threshold
      then (Inr [], s0)
      else
        let start_node = \<lparr>state_index = 0, state = start_st, motion_cost = 0,
                          heuristic_cost = heuristic gs start_st\<rparr> in
        search_loop gs hs end_st distance_threshold parallel ok
          (s0\<lparr>pq := pq_push (pq s0) start_node\<rparr>))"

text \<open>\<^verbatim>\<open>GraphSearch2::GetVisitedStates\<close>\<close>

definition GetVisitedStates :: "search_state \<Rightarrow> VectorXd list" where
  "GetVisitedStates s = visited_states s"

section \<open>Auxiliary definitions\<close>

subsection \<open>The steps of the loop body and the labels\<close>

definition popped :: "host \<Rightarrow> search_state \<Rightarrow> search_state" where
  "popped hs s = add_timing hs ''astar_pop'' (s\<lparr>pq := pq_pop (pq s)\<rparr>)"

definition visiting :: "host \<Rightarrow> search_state \<Rightarrow> search_state" where
  "visiting hs s =
     (popped hs s)\<lparr>visited_states := visited_insert (visited_states s) (state (pq_top (pq s))),
                   expanded := expanded s @ [pq_top (pq s)]\<rparr>"

definition expand_call :: "GraphSearch2 \<Rightarrow> host \<Rightarrow> bool \<Rightarrow> search_state \<Rightarrow> fault + Node2 list" where
  "expand_call gs hs p s =
     (if p then ExpandPar gs (sched hs (length (expanded s))) (visited_states (visiting hs s))
                 (pq_top (pq s))
      else Expand gs (visited_states (visiting hs s)) (pq_top (pq s)))"

definition visit_inv :: "search_state \<Rightarrow> bool" where
  "visit_inv s = (distinct (map (quantize \<circ> state) (expanded s)) \<and>
      (quantize \<circ> state) ` set (expanded s) = quantize ` set (visited_states s))"

definition labels :: "string set" where
  "labels = {''astar_pop'', ''astar_push'', ''astar_expand''}"

definition timing_inv :: "search_state \<Rightarrow> bool" where
  "timing_inv s =
     (dom (timings s) \<subseteq> labels \<and>
      (''astar_push'' \<in> dom (timings s)) = (history s \<noteq> Map.empty) \<and>
      (expanded s = [] \<or> ''astar_pop'' \<in> dom (timings s)))"

definition timing_inv_loop :: "search_state \<Rightarrow> bool" where
  "timing_inv_loop s =
     (timing_inv s \<and> (expanded s = [] \<or> ''astar_expand'' \<in> dom (timings s)))"

definition body_nodes :: "GraphSearch2 \<Rightarrow> VectorXd list \<Rightarrow> Node2 \<Rightarrow> nat \<Rightarrow> nat \<Rightarrow> Node2 list" where
  "body_nodes gs vis node j i =
     (case expand_body gs vis node j i of Inr (Some n) \<Rightarrow> [n] | _ \<Rightarrow> [])"

definition path_cost :: "MotionPrimitive list \<Rightarrow> real" where
  "path_cost path = sum_list (map cost path)"

subsection \<open>The lattice as a graph\<close>

text \<open>
  The successor of a node along row \<open>i\<close>: what the body of the expansion loop emits for an
  empty visited set, together with the translated primitive (the one that
  \<^verbatim>\<open>GetPrimitiveBetween\<close> fetches). A walk follows a list of rows; \<open>reach\<close> holds of the
  nodes at the end of a walk from the start node.
\<close>

definition successor :: "GraphSearch2 \<Rightarrow> Node2 \<Rightarrow> nat \<Rightarrow> (MotionPrimitive \<times> Node2) option" where
  "successor gs p i =
     (case NormIndex (graph gs) (state_index p) of
        Inl f \<Rightarrow> None
      | Inr j \<Rightarrow>
          (case expand_body gs [] p j i of
             Inl f \<Rightarrow> None
           | Inr None \<Rightarrow> None
           | Inr (Some n) \<Rightarrow>
               (case GetPrimitiveBetween gs p n of
                  Inl f \<Rightarrow> None
                | Inr mp \<Rightarrow> Some (mp, n))))"

fun walk :: "GraphSearch2 \<Rightarrow> Node2 \<Rightarrow> nat list \<Rightarrow> (MotionPrimitive list \<times> Node2) option" where
  "walk gs n [] = Some ([], n)"
| "walk gs n (i # rows) =
     (case successor gs n i of
        None \<Rightarrow> None
      | Some (mp, n') \<Rightarrow>
          (case walk gs n' rows of
             None \<Rightarrow> None
           | Some (path, t) \<Rightarrow> Some (mp # path, t)))"

definition reach :: "GraphSearch2 \<Rightarrow> Node2 \<Rightarrow> Node2 \<Rightarrow> bool" where
  "reach gs s0 n = (\<exists>rows path. walk gs s0 rows = Some (path, n))"

definition start_node :: "GraphSearch2 \<Rightarrow> VectorXd \<Rightarrow> Node2" where
  "start_node gs start_st =
     \<lparr>state_index = 0, state = start_st, motion_cost = 0, heuristic_cost = heuristic gs start_st\<rparr>"

definition init_state :: "search_state \<Rightarrow> Node2 \<Rightarrow> search_state" where
  "init_state members s0 =
     members\<lparr>visited_states := [], timings := Map.empty, pq := [s0], history := Map.empty,
             expanded := [], reads := 0\<rparr>"

subsection \<open>Conditions on the input\<close>

text \<open>
  \<open>quantization_exact\<close>: two reachable nodes that share a quantized state have the same
  state; their rows may differ, as they do on a tiled lattice, where one state is entered
  under several rows. \<open>column_determined\<close>: two reachable nodes with the same state have
  the same normalized index, that is, the same column of outgoing edges.
  \<open>positive_costs\<close>: every primitive of the bank has a positive cost. \<open>dims_ok\<close>: the
  states are at least \<open>spatial_dim\<close> long. \<open>primitives_chain\<close>: a primitive that enters
  row \<open>i\<close> ends with the components beyond the position with which the primitives that
  leave the column of row \<open>i\<close> start. \<open>start_fits\<close>: the primitives that leave the column
  of row \<open>0\<close> start with the components beyond the position of the start state.
  \<open>consistent\<close>: the heuristic does not drop by more than the cost along a primitive, and
  is zero where the goal test holds. \<open>admissible\<close>: the heuristic is a non-negative lower
  bound on the cost of every walk to a node that passes the goal test.
\<close>

definition quantization_exact :: "GraphSearch2 \<Rightarrow> Node2 \<Rightarrow> bool" where
  "quantization_exact gs s0 =
     (\<forall>n m. reach gs s0 n \<and> reach gs s0 m \<and> quantize (state n) = quantize (state m)
        \<longrightarrow> state n = state m)"

definition column_determined :: "GraphSearch2 \<Rightarrow> Node2 \<Rightarrow> bool" where
  "column_determined gs s0 =
     (\<forall>n m. reach gs s0 n \<and> reach gs s0 m \<and> state n = state m
        \<longrightarrow> NormIndex (graph gs) (state_index n) = NormIndex (graph gs) (state_index m))"

definition positive_costs :: "GraphSearch2 \<Rightarrow> bool" where
  "positive_costs gs = (\<forall>m \<in> set (mps (graph gs)). 0 < cost m)"

definition dims_ok :: "GraphSearch2 \<Rightarrow> VectorXd \<Rightarrow> bool" where
  "dims_ok gs start_st =
     (spatial_dim (graph gs) \<le> length start_st \<and>
      (\<forall>m \<in> set (mps (graph gs)).
         mp_spatial_dim m = spatial_dim (graph gs) \<and>
         spatial_dim (graph gs) \<le> length (start_state m) \<and>
         spatial_dim (graph gs) \<le> length (end_state m)))"

definition primitives_chain :: "MotionPrimitiveGraph \<Rightarrow> bool" where
  "primitives_chain g =
     (\<forall>i j k i' m m'.
        get_mp_between_indices g i j = Inr m \<and> NormIndex g i = Inr k \<and>
        get_mp_between_indices g i' k = Inr m'
          \<longrightarrow> drop (spatial_dim g) (end_state m) = drop (spatial_dim g) (start_state m'))"

definition start_fits :: "MotionPrimitiveGraph \<Rightarrow> VectorXd \<Rightarrow> bool" where
  "start_fits g start_st =
     (\<forall>k i m. NormIndex g 0 = Inr k \<and> get_mp_between_indices g i k = Inr m
        \<longrightarrow> drop (spatial_dim g) (start_state m) = drop (spatial_dim g) start_st)"

definition consistent :: "GraphSearch2 \<Rightarrow> Node2 \<Rightarrow> VectorXd \<Rightarrow> real \<Rightarrow> bool" where
  "consistent gs s0 end_st d =
     ((\<forall>p i mp n. reach gs s0 p \<and> successor gs p i = Some (mp, n)
         \<longrightarrow> heuristic gs (state p) \<le> cost mp + heuristic gs (state n)) \<and>
      (\<forall>t. reach gs s0 t \<and> state_pos_within (state t) end_st (spatial_dim (graph gs)) d
         \<longrightarrow> heuristic gs (state t) = 0))"

definition admissible :: "GraphSearch2 \<Rightarrow> Node2 \<Rightarrow> VectorXd \<Rightarrow> real \<Rightarrow> bool" where
  "admissible gs s0 end_st d =
     (\<forall>n. reach gs s0 n \<longrightarrow>
        0 \<le> heuristic gs (state n) \<and>
        (\<forall>rows path t. walk gs n rows = Some (path, t) \<and>
            state_pos_within (state t) end_st (spatial_dim (graph gs)) d
              \<longrightarrow> heuristic gs (state n) \<le> path_cost path))"

definition schedules_ok :: "GraphSearch2 \<Rightarrow> host \<Rightarrow> bool \<Rightarrow> bool" where
  "schedules_ok gs hs par =
     (par \<longrightarrow> (\<forall>k. valid_schedule (edges_rows (graph gs)) (sched hs k)))"

definition lattice_ok :: "GraphSearch2 \<Rightarrow> Node2 \<Rightarrow> bool" where
  "lattice_ok gs s0 =
     (quantization_exact gs s0 \<and> motion_cost s0 = 0 \<and>
      heuristic_cost s0 = heuristic gs (state s0))"

subsection \<open>Invariants of the loop\<close>

text \<open>
  \<open>trace\<close>: the history leads from a node back to the start node, through entries of
  visited states only, along the rows and primitives of a walk. \<open>inv_pq\<close>: every queued
  node other than the start node has a history entry that costs no more, and was written
  for that very node when it costs the same. \<open>inv_hist\<close>: every entry was written for a
  successor of an expanded node, which is still queued unless its state is visited.
\<close>

inductive trace ::
    "GraphSearch2 \<Rightarrow> PathHistory \<Rightarrow> int list set \<Rightarrow> Node2 \<Rightarrow> Node2 \<Rightarrow> nat list
      \<Rightarrow> MotionPrimitive list \<Rightarrow> bool"
  for gs :: GraphSearch2 and H :: PathHistory and K :: "int list set" and s0 :: Node2 where
  trace_start: "trace gs H K s0 s0 [] []"
| trace_step:
    "trace gs H K s0 p rows path \<Longrightarrow> quantize (state n) \<in> K \<Longrightarrow>
     H (quantize (state n)) = Some e \<Longrightarrow> parent_node e = p \<Longrightarrow>
     successor gs p (state_index n) = Some (mp, n) \<Longrightarrow>
     trace gs H K s0 n (rows @ [state_index n]) (path @ [mp])"

definition vkeys :: "search_state \<Rightarrow> int list set" where
  "vkeys s = quantize ` set (visited_states s)"

definition inv_pq :: "GraphSearch2 \<Rightarrow> Node2 \<Rightarrow> search_state \<Rightarrow> bool" where
  "inv_pq gs s0 s =
     (\<forall>n \<in> set (pq s). reach gs s0 n \<and>
        (n \<noteq> s0 \<longrightarrow>
           (\<exists>en c. history s (quantize (state n)) = Some en \<and> best_cost en = Fin c \<and>
              c \<le> motion_cost n \<and>
              (c = motion_cost n \<longrightarrow>
                 (\<exists>mp. successor gs (parent_node en) (state_index n) = Some (mp, n))))))"

definition writer_kept :: "search_state \<Rightarrow> int list \<Rightarrow> Node2 \<Rightarrow> bool" where
  "writer_kept s k q = (if k \<in> vkeys s then q \<in> set (expanded s) else q \<in> set (pq s))"

definition entry_ok :: "GraphSearch2 \<Rightarrow> search_state \<Rightarrow> int list \<Rightarrow> Info \<Rightarrow> bool" where
  "entry_ok gs s k en =
     (parent_node en \<in> set (expanded s) \<and>
      (\<exists>mp q. successor gs (parent_node en) (state_index q) = Some (mp, q) \<and>
               quantize (state q) = k \<and> best_cost en = Fin (motion_cost q) \<and>
               writer_kept s k q))"

definition inv_hist :: "GraphSearch2 \<Rightarrow> search_state \<Rightarrow> bool" where
  "inv_hist gs s = (\<forall>k en. history s k = Some en \<longrightarrow> entry_ok gs s k en)"

definition inv_exp :: "GraphSearch2 \<Rightarrow> Node2 \<Rightarrow> VectorXd \<Rightarrow> real \<Rightarrow> search_state \<Rightarrow> bool" where
  "inv_exp gs s0 e d s =
     (\<forall>p \<in> set (expanded s).
        (\<exists>rows path. trace gs (history s) (vkeys s) s0 p rows path) \<and>
        \<not> state_pos_within (state p) e (spatial_dim (graph gs)) d)"

definition inv_start :: "Node2 \<Rightarrow> search_state \<Rightarrow> bool" where
  "inv_start s0 s =
     ((s0 \<in> set (pq s) \<longrightarrow> history s = Map.empty \<and> pq s = [s0]) \<and>
      (s0 \<notin> set (pq s) \<longrightarrow> quantize (state s0) \<in> vkeys s))"

definition sound_inv :: "GraphSearch2 \<Rightarrow> Node2 \<Rightarrow> VectorXd \<Rightarrow> real \<Rightarrow> search_state \<Rightarrow> bool" where
  "sound_inv gs s0 e d s =
     (inv_pq gs s0 s \<and> inv_hist gs s \<and> inv_exp gs s0 e d s \<and> inv_start s0 s \<and> visit_inv s)"

definition covered :: "search_state \<Rightarrow> Node2 \<Rightarrow> bool" where
  "covered s n =
     (quantize (state n) \<in> vkeys s \<or>
      (\<exists>q \<in> set (pq s). quantize (state q) = quantize (state n) \<and> motion_cost q \<le> motion_cost n))"

definition inv_closed :: "GraphSearch2 \<Rightarrow> Node2 \<Rightarrow> search_state \<Rightarrow> bool" where
  "inv_closed gs s0 s =
     (\<forall>p \<in> set (expanded s). \<forall>rows path m.
        walk gs s0 rows = Some (path, m) \<and> quantize (state m) = quantize (state p)
          \<longrightarrow> motion_cost p \<le> motion_cost m)"

definition inv_frontier :: "GraphSearch2 \<Rightarrow> Node2 set \<Rightarrow> search_state \<Rightarrow> bool" where
  "inv_frontier gs A s =
     (\<forall>p \<in> A. \<forall>i mp n. successor gs p i = Some (mp, n) \<longrightarrow> covered s n)"

definition opt_inv :: "GraphSearch2 \<Rightarrow> Node2 \<Rightarrow> search_state \<Rightarrow> bool" where
  "opt_inv gs s0 s =
     (inv_closed gs s0 s \<and> inv_frontier gs (set (expanded s)) s \<and> covered s s0)"

section \<open>Example inputs\<close>

definition ex_mp :: "int \<Rightarrow> real \<Rightarrow> VectorXd \<Rightarrow> VectorXd \<Rightarrow> MotionPrimitive" where
  "ex_mp k c a b = \<lparr>mp_id = k, cost = c, traj_time = 1, mp_spatial_dim = 1, start_state = a,
     end_state = b, poly_const = [hd a], poly_coeffs = [[hd b - hd a]]\<rparr>"

definition ex_graph :: "int list list \<Rightarrow> real list list \<Rightarrow> MotionPrimitive list \<Rightarrow> MotionPrimitiveGraph" where
  "ex_graph es vs ms = \<lparr>edges = es, vertices = vs, mps = ms, max_state = [10], dispersion = 1,
     rho = 1, spatial_dim = 1, control_space_dim = length (hd vs), state_dim = length (hd vs),
     num_tiles = 1, tiling = False\<rparr>"

definition ex1_graph :: MotionPrimitiveGraph where
  "ex1_graph = ex_graph [[-1,-1,-1,-1],[0,-1,-1,-1],[1,2,-1,-1],[-1,-1,3,-1]]
     [[0],[1],[2],[3]]
     [ex_mp 0 1 [0] [1], ex_mp 1 3 [0] [2], ex_mp 2 1 [1] [2], ex_mp 3 4 [2] [3]]"

definition ex1_gs :: GraphSearch2 where
  "ex1_gs = \<lparr>graph = ex1_graph, is_mp_collision_free = (\<lambda>_. True),
     heuristic = (\<lambda>s. if s = [1] then 4 else 0)\<rparr>"

definition ex2_gs :: GraphSearch2 where
  "ex2_gs = \<lparr>graph = ex1_graph, is_mp_collision_free = (\<lambda>_. True),
     heuristic = (\<lambda>s. if s = [1] then 2 else 0)\<rparr>"

definition ex3_graph :: MotionPrimitiveGraph where
  "ex3_graph = ex_graph [[-1,-1,-1,-1],[0,-1,-1,-1],[1,3,-1,-1],[-1,2,-1,-1]]
     [[0],[1],[2001/1000],[2002/1000]]
     [ex_mp 0 1 [0] [1], ex_mp 1 5 [0] [2001/1000], ex_mp 2 1 [1] [2002/1000],
      ex_mp 3 7 [1] [2001/1000]]"

definition ex3_gs :: GraphSearch2 where
  "ex3_gs = \<lparr>graph = ex3_graph, is_mp_collision_free = (\<lambda>m. mp_id m \<noteq> 3),
     heuristic = (\<lambda>_. 0)\<rparr>"

definition ex4_graph :: MotionPrimitiveGraph where
  "ex4_graph = ex_graph [[-1,-1],[0,-1]] [[0,0],[1,0]] [ex_mp 0 1 [0,0] [1,0]]"

definition ex4_gs :: GraphSearch2 where
  "ex4_gs = \<lparr>graph = ex4_graph, is_mp_collision_free = (\<lambda>_. True), heuristic = (\<lambda>_. 0)\<rparr>"

definition ex_host :: host where
  "ex_host = \<lparr>wall = (\<lambda>_. 1), sched = (\<lambda>_. [[(2, 4)], [(0, 2)]])\<rparr>"

definition ex_members :: search_state where
  "ex_members = \<lparr>visited_states = [[5]], timings = [''astar_pop'' \<mapsto> 3], pq = [],
     history = Map.empty, expanded = [], reads = 0\<rparr>"

definition ex_node :: "nat \<Rightarrow> real \<Rightarrow> real \<Rightarrow> Node2" where
  "ex_node i x c = \<lparr>state_index = i, state = [x], motion_cost = c, heuristic_cost = 0\<rparr>"

definition ex_state :: search_state where
  "ex_state = \<lparr>visited_states = [[0]], timings = Map.empty, pq = [ex_node 2 2 3],
     history = [quantize [2] \<mapsto> \<lparr>parent_node = ex_node 0 0 0, best_cost = Fin 3\<rparr>],
     expanded = [ex_node 0 0 0], reads = 0\<rparr>"

definition ex0_gs :: GraphSearch2 where
  "ex0_gs = \<lparr>graph = ex1_graph, is_mp_collision_free = (\<lambda>_. True), heuristic = (\<lambda>_. 0)\<rparr>"

definition ex1_rem :: "nat \<Rightarrow> real" where
  "ex1_rem i = (if i = 0 then 6 else if i = 1 then 5 else if i = 2 then 4 else 0)"

text \<open>
  A tiled lattice on a line, with states \<open>[position, velocity]\<close>: one vertex, repeated at
  the positions 0, 1 and 2, a primitive one step ahead (cost 2) and one two steps ahead
  (cost 3). Every row is normalized to column 0, so that a position is entered under
  row 1 or under row 2. The heuristic is the distance that is left to position 3.
\<close>

definition tile_graph :: MotionPrimitiveGraph where
  "tile_graph = (ex_graph [[-1],[0],[1]] [[0,0],[1,0],[2,0]]
     [ex_mp 0 2 [0,0] [1,0], ex_mp 1 3 [0,0] [2,0]])\<lparr>num_tiles := 3, tiling := True\<rparr>"

definition tile_gs :: GraphSearch2 where
  "tile_gs = \<lparr>graph = tile_graph, is_mp_collision_free = (\<lambda>_. True),
     heuristic = (\<lambda>s. max 0 (3 - hd s))\<rparr>"

text \<open>The same lattice with an obstacle at position 1.\<close>

definition tile_blocked_gs :: GraphSearch2 where
  "tile_blocked_gs = \<lparr>graph = tile_graph, is_mp_collision_free = (\<lambda>m. end_state m \<noteq> [1,0]),
     heuristic = (\<lambda>s. max 0 (3 - hd s))\<rparr>"

definition tile_host :: host where
  "tile_host = \<lparr>wall = (\<lambda>_. 1), sched = (\<lambda>_. [[(2, 3)], [(0, 2)]])\<rparr>"

definition tile_serial :: "MotionPrimitive list" where
  "tile_serial = [ex_mp 0 2 [0,0] [1,0], ex_mp 1 3 [1,0] [3,0]]"

definition tile_parallel :: "MotionPrimitive list" where
  "tile_parallel = [ex_mp 1 3 [0,0] [2,0], ex_mp 0 2 [2,0] [3,0]]"

definition tile_alt :: "MotionPrimitive list" where
  "tile_alt = [ex_mp 0 2 [0,0] [1,0], ex_mp 0 2 [1,0] [2,0], ex_mp 0 2 [2,0] [3,0]]"

text \<open>A graph whose primitive into vertex 1 ends with velocity 5, while the primitive out
  of vertex 1 starts with velocity 0.\<close>

definition ex5_graph :: MotionPrimitiveGraph where
  "ex5_graph = ex_graph [[-1,-1,-1],[0,-1,-1],[-1,1,-1]] [[0,0],[1,5],[2,0]]
     [ex_mp 0 1 [0,0] [1,5], ex_mp 1 1 [1,0] [2,0]]"

definition ex5_gs :: GraphSearch2 where
  "ex5_gs = \<lparr>graph = ex5_graph, is_mp_collision_free = (\<lambda>_. True), heuristic = (\<lambda>_. 0)\<rparr>"

text \<open>A graph whose first primitive costs nothing.\<close>

definition ex6_graph :: MotionPrimitiveGraph where
  "ex6_graph = ex_graph [[-1,-1,-1],[0,-1,-1],[-1,1,-1]] [[0],[1],[2]]
     [ex_mp 0 0 [0] [1], ex_mp 1 1 [1] [2]]"

definition ex6_gs :: GraphSearch2 where
  "ex6_gs = \<lparr>graph = ex6_graph, is_mp_collision_free = (\<lambda>_. True), heuristic = (\<lambda>_. 0)\<rparr>"

text \<open>A graph with two vertices at position 1: the one of row 1 is left by a primitive of
  cost 10, the one of row 2 by a primitive of cost 1.\<close>

definition ex7_graph :: MotionPrimitiveGraph where
  "ex7_graph = ex_graph [[-1,-1,-1,-1],[0,-1,-1,-1],[1,-1,-1,-1],[-1,2,3,-1]]
     [[0],[1],[1],[2]]
     [ex_mp 0 1 [0] [1], ex_mp 1 2 [0] [1], ex_mp 2 10 [1] [2], ex_mp 3 1 [1] [2]]"

definition ex7_gs :: GraphSearch2 where
  "ex7_gs = \<lparr>graph = ex7_graph, is_mp_collision_free = (\<lambda>_. True), heuristic = (\<lambda>_. 0)\<rparr>"

section \<open>The hash is a fold over the truncated components\<close>

lemma hash_loop_fold:
  "hash_loop h v i seed = fold (mix h) (drop i v) seed"
proof (induction h v i seed rule: hash_loop.induct)
  case (1 h v i seed)
  show ?case
  proof (cases "i < length v")
    case True
    then have "drop i v = v ! i # drop (Suc i) v"
      by (simp add: Cons_nth_drop_Suc)
    with True "1" show ?thesis
      by (subst hash_loop.simps) (simp add: mix_def[symmetric])
  next
    case False
    then show ?thesis
      by (subst hash_loop.simps) simp
  qed
qed

text \<open>
  C6, as amended: for every state vector and every \<^verbatim>\<open>std::hash<int>\<close>, the hash computed by
  the loop of \<^verbatim>\<open>VectorXdHash::operator()\<close> is the fold, from seed 0, of the mixing step
  \<open>seed XOR (hash_int x + 0x9e3779b9 + (seed << 6) + (seed >> 2))\<close> over the components
  of \<open>state * 100\<close> converted to integers by discarding the fraction (rounding towards
  zero, not the floor).
\<close>

theorem VectorXdHash_is_fold:
  "VectorXdHash hash_int vd = hash_spec_trunc hash_int vd"
  by (simp add: VectorXdHash_def hash_spec_trunc_def quantize_def hash_loop_fold)

text \<open>
  C6 as the spec states it, with the floor, fails: for the one-component state \<open>-0.005\<close>
  the source hashes the integer \<open>0\<close> (the fraction of \<open>-0.5\<close> is discarded) and the
  spec's formula the integer \<open>-1\<close>; with the identity as \<^verbatim>\<open>std::hash<int>\<close> the two
  hashes differ.
\<close>

theorem VectorXdHash_not_floor:
  "VectorXdHash word_of_int [- 1 / 200] \<noteq> hash_spec_floor word_of_int [- 1 / 200]"
  by (simp add: VectorXdHash_def hash_spec_floor_def quantize_def hash_loop_fold mix_def
      cast_int_def)

section \<open>The sign of the threshold\<close>

lemma state_pos_within_neg:
  "state_pos_within p1 p2 sd (- d) = state_pos_within p1 p2 sd d"
  by (simp add: state_pos_within_def)

lemma search_body_neg:
  "search_body gs hs end_st (- d) parallel ok s = search_body gs hs end_st d parallel ok s"
  by (simp add: search_body_def state_pos_within_neg)

lemma search_loop_neg:
  "search_loop gs hs end_st (- d) parallel ok s = search_loop gs hs end_st d parallel ok s"
  by (induction ok arbitrary: s) (simp_all add: search_body_neg split: sum.splits)

text \<open>
  C9: for every start state, end state, parallel flag and threshold \<open>d\<close>, \<^verbatim>\<open>Search\<close> called
  with \<open>-d\<close> returns what it returns with \<open>d\<close> (the path or fault, and the state it
  leaves behind): the threshold only enters as \<open>d * d\<close>.
\<close>

theorem Search_threshold_sign:
  "Search gs hs ok members start_st end_st (- d) parallel
     = Search gs hs ok members start_st end_st d parallel"
  by (simp add: Search_def Let_def state_pos_within_neg search_loop_neg)

section \<open>The steps of the loop\<close>

lemma add_timing_fields [simp]:
  "visited_states (add_timing hs l s) = visited_states s"
  "pq (add_timing hs l s) = pq s"
  "history (add_timing hs l s) = history s"
  "expanded (add_timing hs l s) = expanded s"
  "dom (timings (add_timing hs l s)) = insert l (dom (timings s))"
  by (simp_all add: add_timing_def)

lemma popped_fields [simp]:
  "visited_states (popped hs s) = visited_states s"
  "pq (popped hs s) = pq_pop (pq s)"
  "history (popped hs s) = history s"
  "expanded (popped hs s) = expanded s"
  "dom (timings (popped hs s)) = insert ''astar_pop'' (dom (timings s))"
  by (simp_all add: popped_def)

lemma visiting_fields [simp]:
  "visited_states (visiting hs s) = visited_insert (visited_states s) (state (pq_top (pq s)))"
  "pq (visiting hs s) = pq_pop (pq s)"
  "history (visiting hs s) = history s"
  "expanded (visiting hs s) = expanded s @ [pq_top (pq s)]"
  "dom (timings (visiting hs s)) = insert ''astar_pop'' (dom (timings s))"
  by (simp_all add: visiting_def)

lemma relax_eq:
  "relax hs c s n =
     (if less_ecost (motion_cost n)
           (case history s (quantize (state n)) of None \<Rightarrow> PInf | Some e \<Rightarrow> best_cost e)
      then (add_timing hs ''astar_push'' (s\<lparr>pq := pq s @ [n]\<rparr>))
             \<lparr>history := (history s)(quantize (state n) \<mapsto>
                 \<lparr>parent_node = c, best_cost = Fin (motion_cost n)\<rparr>)\<rparr>
      else s)"
  by (cases "history s (quantize (state n))")
    (simp_all add: relax_def history_index_def Info_default_def pq_push_def)

lemma relax_fields [simp]:
  "visited_states (relax hs c s n) = visited_states s"
  "expanded (relax hs c s n) = expanded s"
  by (simp_all add: relax_def history_index_def Let_def split: option.splits prod.splits)

lemma foldl_relax_fields [simp]:
  "visited_states (foldl (relax hs c) s ns) = visited_states s"
  "expanded (foldl (relax hs c) s ns) = expanded s"
  by (induction ns arbitrary: s) simp_all

lemma visited_insert_keys [simp]:
  "quantize ` set (visited_insert vs x) = insert (quantize x) (quantize ` set vs)"
  by (auto simp: visited_insert_def visited_find_def)

lemma search_body_cases [consumes 1, case_names goal stale fault expand]:
  assumes "search_body gs hs e d p k s = R"
  obtains
    "state_pos_within (state (pq_top (pq s))) e (spatial_dim (graph gs)) d"
    "R = Inl (RecoverPath gs k (history s) (pq_top (pq s)), s)"
  | "\<not> state_pos_within (state (pq_top (pq s))) e (spatial_dim (graph gs)) d"
    "visited_find (visited_states s) (state (pq_top (pq s)))"
    "R = Inr (popped hs s)"
  | f where
    "\<not> state_pos_within (state (pq_top (pq s))) e (spatial_dim (graph gs)) d"
    "\<not> visited_find (visited_states s) (state (pq_top (pq s)))"
    "expand_call gs hs p s = Inl f"
    "R = Inl (Inl f, visiting hs s)"
  | ns where
    "\<not> state_pos_within (state (pq_top (pq s))) e (spatial_dim (graph gs)) d"
    "\<not> visited_find (visited_states s) (state (pq_top (pq s)))"
    "expand_call gs hs p s = Inr ns"
    "R = Inr (foldl (relax hs (pq_top (pq s))) (add_timing hs ''astar_expand'' (visiting hs s)) ns)"
proof (cases "state_pos_within (state (pq_top (pq s))) e (spatial_dim (graph gs)) d")
  case True
  with assms that(1) show ?thesis by (simp add: search_body_def)
next
  case ng: False
  show ?thesis
  proof (cases "visited_find (visited_states s) (state (pq_top (pq s)))")
    case True
    with ng assms that(2) show ?thesis
      by (simp add: search_body_def popped_def)
  next
    case nv: False
    show ?thesis
    proof (cases "expand_call gs hs p s")
      case (Inl f)
      with ng nv assms have "R = Inl (Inl f, visiting hs s)"
        by (auto simp: search_body_def expand_call_def visiting_def popped_def Let_def)
      with ng nv Inl that(3) show ?thesis by blast
    next
      case (Inr ns)
      with ng nv assms have "R = Inr (foldl (relax hs (pq_top (pq s)))
          (add_timing hs ''astar_expand'' (visiting hs s)) ns)"
        by (auto simp: search_body_def expand_call_def visiting_def popped_def Let_def)
      with ng nv Inr that(4) show ?thesis by blast
    qed
  qed
qed

text \<open>Where a run of the loop ends: at a state reached by going round the loop, either by
  leaving the loop or by a return from its body.\<close>

lemma search_loop_exit:
  assumes "I s"
    and step: "\<And>k t t'. I t \<Longrightarrow> pq t \<noteq> [] \<Longrightarrow> search_body gs hs e d p k t = Inr t' \<Longrightarrow> I t'"
  shows "\<exists>t. I t \<and>
           (search_loop gs hs e d p ok s = (Inr [], t) \<or>
            (\<exists>k. pq t \<noteq> [] \<and> search_body gs hs e d p k t = Inl (search_loop gs hs e d p ok s)))"
  using assms(1)
proof (induction ok arbitrary: s)
  case 0
  then show ?case by auto
next
  case (Suc ok)
  show ?case
  proof (cases "pq s = []")
    case True
    with Suc.prems show ?thesis by auto
  next
    case False
    show ?thesis
    proof (cases "search_body gs hs e d p ok s")
      case (Inl r)
      with False Suc.prems show ?thesis by auto
    next
      case (Inr s')
      with False Suc.prems have "I s'" by (auto intro: step)
      from Suc.IH [OF this] Inr False show ?thesis by simp
    qed
  qed
qed

section \<open>No state is expanded twice\<close>

lemma visit_inv_visiting:
  assumes "visit_inv s" "\<not> visited_find (visited_states s) (state (pq_top (pq s)))"
  shows "visit_inv (visiting hs s)"
  using assms by (auto simp: visit_inv_def visited_find_def)

lemma visit_inv_cong:
  "expanded t = expanded s \<Longrightarrow> visited_states t = visited_states s \<Longrightarrow> visit_inv t = visit_inv s"
  by (simp add: visit_inv_def)

lemma visit_inv_body:
  assumes "visit_inv s" "search_body gs hs e d p k s = R"
  shows "case R of Inl (r, s') \<Rightarrow> visit_inv s' | Inr s' \<Rightarrow> visit_inv s'"
  using assms(2)
proof (cases rule: search_body_cases)
  case goal
  with assms(1) show ?thesis by simp
next
  case stale
  with assms(1) show ?thesis by (simp add: visit_inv_cong [of "popped hs s" s])
next
  case (fault f)
  with assms(1) show ?thesis by (simp add: visit_inv_visiting)
next
  case (expand ns)
  with assms(1) have "visit_inv (visiting hs s)" by (simp add: visit_inv_visiting)
  with expand show ?thesis
    by (simp add: visit_inv_cong [of "foldl _ _ _" "visiting hs s"])
qed

lemma visit_inv_loop:
  assumes "visit_inv s"
  shows "visit_inv (snd (search_loop gs hs e d p ok s))"
proof -
  have "\<exists>t. visit_inv t \<and>
           (search_loop gs hs e d p ok s = (Inr [], t) \<or>
            (\<exists>k. pq t \<noteq> [] \<and> search_body gs hs e d p k t = Inl (search_loop gs hs e d p ok s)))"
  proof (rule search_loop_exit)
    show "visit_inv s" by fact
  next
    fix k t t'
    assume "visit_inv t" "search_body gs hs e d p k t = Inr t'"
    from visit_inv_body [OF this] show "visit_inv t'" by simp
  qed
  then obtain t where t: "visit_inv t"
    "search_loop gs hs e d p ok s = (Inr [], t) \<or>
     (\<exists>k. pq t \<noteq> [] \<and> search_body gs hs e d p k t = Inl (search_loop gs hs e d p ok s))"
    by blast
  from t(2) show ?thesis
  proof
    assume "search_loop gs hs e d p ok s = (Inr [], t)"
    with t(1) show ?thesis by simp
  next
    assume "\<exists>k. pq t \<noteq> [] \<and> search_body gs hs e d p k t = Inl (search_loop gs hs e d p ok s)"
    then obtain k where "search_body gs hs e d p k t = Inl (search_loop gs hs e d p ok s)"
      by blast
    from visit_inv_body [OF t(1) this] show ?thesis
      by (simp add: case_prod_beta)
  qed
qed

text \<open>
  C5: within one call of \<^verbatim>\<open>Search\<close>, the nodes passed to \<^verbatim>\<open>Expand\<close> or \<^verbatim>\<open>ExpandPar\<close> have
  pairwise different quantized states, so that no state (under the quantized equivalence)
  is expanded twice; and the quantized states of the expanded nodes are exactly those of
  the visited set: a node is expanded only when its state is not yet visited, and its state
  is inserted before the expansion.
\<close>

theorem Search_expands_once:
  "distinct (map (quantize \<circ> state)
      (expanded (snd (Search gs hs ok members start_st end_st d parallel)))) \<and>
   (quantize \<circ> state) ` set (expanded (snd (Search gs hs ok members start_st end_st d parallel)))
     = quantize ` set (visited_states (snd (Search gs hs ok members start_st end_st d parallel)))"
proof -
  have init: "visit_inv t" if "expanded t = []" "visited_states t = []" for t
    using that by (simp add: visit_inv_def)
  have "visit_inv (snd (Search gs hs ok members start_st end_st d parallel))"
    by (auto simp: Search_def Let_def intro!: visit_inv_loop init)
  then show ?thesis by (simp add: visit_inv_def)
qed

section \<open>The history is written on a strictly lower cost only\<close>

text \<open>
  C7: in the loop over the successors, a state without a history entry is read with
  \<^verbatim>\<open>best_cost = +infinity\<close> (the read creates the default entry); when the successor's
  \<^verbatim>\<open>motion_cost\<close> is strictly lower than the \<^verbatim>\<open>best_cost\<close> read, the successor is pushed onto
  the queue and the entry of its state becomes \<^verbatim>\<open>{curr_node, motion_cost}\<close>; otherwise
  neither the queue nor the history changes.
\<close>

theorem relax_strictly_lower:
  "(history s (quantize (state n)) = None \<longrightarrow>
      best_cost (fst (history_index (history s) (state n))) = PInf \<and>
      snd (history_index (history s) (state n)) (quantize (state n)) = Some Info_default) \<and>
   (less_ecost (motion_cost n) (best_cost (fst (history_index (history s) (state n)))) \<longrightarrow>
      pq (relax hs c s n) = pq_push (pq s) n \<and>
      history (relax hs c s n) = (history s)(quantize (state n) \<mapsto>
          \<lparr>parent_node = c, best_cost = Fin (motion_cost n)\<rparr>)) \<and>
   (\<not> less_ecost (motion_cost n) (best_cost (fst (history_index (history s) (state n)))) \<longrightarrow>
      pq (relax hs c s n) = pq s \<and> history (relax hs c s n) = history s)"
  by (cases "history s (quantize (state n))")
    (simp_all add: relax_def history_index_def Info_default_def pq_push_def)

theorem relax_strictly_lower_witness:
  "history ex_state (quantize (state (ex_node 1 1 1))) = None \<and>
   best_cost (fst (history_index (history ex_state) (state (ex_node 1 1 1)))) = PInf \<and>
   less_ecost (motion_cost (ex_node 2 2 2))
     (best_cost (fst (history_index (history ex_state) (state (ex_node 2 2 2))))) \<and>
   pq (relax ex_host (ex_node 1 1 1) ex_state (ex_node 2 2 2)) = [ex_node 2 2 3, ex_node 2 2 2] \<and>
   \<not> less_ecost (motion_cost (ex_node 2 2 3))
     (best_cost (fst (history_index (history ex_state) (state (ex_node 2 2 3))))) \<and>
   pq (relax ex_host (ex_node 1 1 1) ex_state (ex_node 2 2 3)) = [ex_node 2 2 3] \<and>
   history (relax ex_host (ex_node 1 1 1) ex_state (ex_node 2 2 3)) = history ex_state"
proof -
  have a: "history ex_state (quantize (state (ex_node 1 1 1))) = None"
    by (simp add: ex_state_def ex_node_def quantize_def cast_int_def)
  have b: "less_ecost (motion_cost (ex_node 2 2 2))
     (best_cost (fst (history_index (history ex_state) (state (ex_node 2 2 2)))))"
    by (simp add: ex_state_def ex_node_def quantize_def cast_int_def history_index_def)
  have c: "\<not> less_ecost (motion_cost (ex_node 2 2 3))
     (best_cost (fst (history_index (history ex_state) (state (ex_node 2 2 3)))))"
    by (simp add: ex_state_def ex_node_def quantize_def cast_int_def history_index_def)
  have d: "pq_push (pq ex_state) (ex_node 2 2 2) = [ex_node 2 2 3, ex_node 2 2 2]"
    "pq ex_state = [ex_node 2 2 3]"
    by (simp_all add: ex_state_def pq_push_def)
  from a b c d
    relax_strictly_lower [of ex_state "ex_node 1 1 1"]
    relax_strictly_lower [of ex_state "ex_node 2 2 2" ex_host "ex_node 1 1 1"]
    relax_strictly_lower [of ex_state "ex_node 2 2 3" ex_host "ex_node 1 1 1"]
  show ?thesis by simp
qed

section \<open>The timing labels\<close>

lemma relax_timing:
  assumes "timing_inv_loop s"
  shows "timing_inv_loop (relax hs c s n)"
  using assms
  by (auto simp: relax_eq timing_inv_loop_def timing_inv_def labels_def)

lemma foldl_relax_timing:
  assumes "timing_inv_loop s"
  shows "timing_inv_loop (foldl (relax hs c) s ns)"
  using assms by (induction ns arbitrary: s) (simp_all add: relax_timing)

lemma timing_inv_body:
  assumes "timing_inv_loop s" "search_body gs hs e d p k s = R"
  shows "case R of Inl (r, s') \<Rightarrow> timing_inv s' \<and> ((\<exists>path. r = Inr path) \<longrightarrow> timing_inv_loop s')
                 | Inr s' \<Rightarrow> timing_inv_loop s'"
  using assms(2)
proof (cases rule: search_body_cases)
  case goal
  with assms(1) show ?thesis by (simp add: timing_inv_loop_def)
next
  case stale
  with assms(1) show ?thesis
    by (auto simp: timing_inv_loop_def timing_inv_def labels_def)
next
  case (fault f)
  with assms(1) show ?thesis
    by (auto simp: timing_inv_loop_def timing_inv_def labels_def)
next
  case (expand ns)
  from assms(1) have "timing_inv_loop (add_timing hs ''astar_expand'' (visiting hs s))"
    by (auto simp: timing_inv_loop_def timing_inv_def labels_def)
  with expand show ?thesis
    by (simp add: foldl_relax_timing)
qed

lemma timing_inv_search_loop:
  assumes "timing_inv_loop s"
  shows "timing_inv (snd (search_loop gs hs e d p ok s)) \<and>
         ((\<exists>path. fst (search_loop gs hs e d p ok s) = Inr path) \<longrightarrow>
             timing_inv_loop (snd (search_loop gs hs e d p ok s)))"
proof -
  have "\<exists>t. timing_inv_loop t \<and>
           (search_loop gs hs e d p ok s = (Inr [], t) \<or>
            (\<exists>k. pq t \<noteq> [] \<and> search_body gs hs e d p k t = Inl (search_loop gs hs e d p ok s)))"
  proof (rule search_loop_exit)
    show "timing_inv_loop s" by fact
  next
    fix k t t'
    assume "timing_inv_loop t" "search_body gs hs e d p k t = Inr t'"
    from timing_inv_body [OF this] show "timing_inv_loop t'" by simp
  qed
  then obtain t where t: "timing_inv_loop t"
    "search_loop gs hs e d p ok s = (Inr [], t) \<or>
     (\<exists>k. pq t \<noteq> [] \<and> search_body gs hs e d p k t = Inl (search_loop gs hs e d p ok s))"
    by blast
  from t(2) show ?thesis
  proof
    assume "search_loop gs hs e d p ok s = (Inr [], t)"
    with t(1) show ?thesis by (simp add: timing_inv_loop_def)
  next
    assume "\<exists>k. pq t \<noteq> [] \<and> search_body gs hs e d p k t = Inl (search_loop gs hs e d p ok s)"
    then obtain k where "search_body gs hs e d p k t = Inl (search_loop gs hs e d p ok s)"
      by blast
    from timing_inv_body [OF t(1) this] show ?thesis
      by (simp add: case_prod_beta)
  qed
qed

text \<open>
  C8, as amended: after \<^verbatim>\<open>Search\<close> returns, \<^verbatim>\<open>timings\<close> has no key other than
  \<^verbatim>\<open>"astar_pop"\<close>, \<^verbatim>\<open>"astar_push"\<close> and \<^verbatim>\<open>"astar_expand"\<close>; on the early exit it is empty;
  when at least one node was expanded it has the entry \<^verbatim>\<open>"astar_pop"\<close>, and, unless the
  call ended in a fault, the entry \<^verbatim>\<open>"astar_expand"\<close>; it has the entry \<^verbatim>\<open>"astar_push"\<close>
  exactly when a successor was recorded in the history.
\<close>

theorem Search_timings:
  "dom (timings (snd (Search gs hs ok members start_st end_st d parallel))) \<subseteq> labels \<and>
   (state_pos_within start_st end_st (spatial_dim (graph gs)) d \<longrightarrow>
      timings (snd (Search gs hs ok members start_st end_st d parallel)) = Map.empty) \<and>
   (expanded (snd (Search gs hs ok members start_st end_st d parallel)) \<noteq> [] \<longrightarrow>
      ''astar_pop'' \<in> dom (timings (snd (Search gs hs ok members start_st end_st d parallel)))) \<and>
   (expanded (snd (Search gs hs ok members start_st end_st d parallel)) \<noteq> [] \<and>
    (\<exists>path. fst (Search gs hs ok members start_st end_st d parallel) = Inr path) \<longrightarrow>
      ''astar_expand'' \<in> dom (timings (snd (Search gs hs ok members start_st end_st d parallel)))) \<and>
   ((''astar_push'' \<in> dom (timings (snd (Search gs hs ok members start_st end_st d parallel))))
      = (history (snd (Search gs hs ok members start_st end_st d parallel)) \<noteq> Map.empty))"
proof (cases "state_pos_within start_st end_st (spatial_dim (graph gs)) d")
  case True
  then show ?thesis by (simp add: Search_def Let_def)
next
  case False
  have init: "timing_inv_loop t"
    if "expanded t = []" "timings t = Map.empty" "history t = Map.empty" for t
    using that by (simp add: timing_inv_loop_def timing_inv_def)
  define s0 where "s0 = (members\<lparr>visited_states := [], timings := Map.empty, pq := [],
                        history := Map.empty, expanded := [], reads := 0\<rparr>)
       \<lparr>pq := pq_push [] \<lparr>state_index = 0, state = start_st, motion_cost = 0,
                          heuristic_cost = heuristic gs start_st\<rparr>\<rparr>"
  have "timing_inv_loop s0" by (rule init) (simp_all add: s0_def)
  from timing_inv_search_loop [OF this, of gs hs end_st d parallel ok]
  have "timing_inv (snd (search_loop gs hs end_st d parallel ok s0)) \<and>
         ((\<exists>path. fst (search_loop gs hs end_st d parallel ok s0) = Inr path) \<longrightarrow>
             timing_inv_loop (snd (search_loop gs hs end_st d parallel ok s0)))" .
  moreover have "Search gs hs ok members start_st end_st d parallel
      = search_loop gs hs end_st d parallel ok s0"
    using False by (simp add: Search_def Let_def s0_def)
  ultimately show ?thesis
    using False by (auto simp: timing_inv_loop_def timing_inv_def)
qed

theorem Search_timings_witness:
  "state_pos_within [0] [0] (spatial_dim (graph ex1_gs)) (1 / 2) \<and>
   timings (snd (Search ex1_gs ex_host 100 ex_members [0] [0] (1 / 2) False)) = Map.empty \<and>
   expanded (snd (Search ex1_gs ex_host 100 ex_members [0] [3] (1 / 2) False)) \<noteq> [] \<and>
   (\<exists>path. fst (Search ex1_gs ex_host 100 ex_members [0] [3] (1 / 2) False) = Inr path) \<and>
   ''astar_pop'' \<in> dom (timings (snd (Search ex1_gs ex_host 100 ex_members [0] [3] (1 / 2) False))) \<and>
   ''astar_expand'' \<in> dom (timings (snd (Search ex1_gs ex_host 100 ex_members [0] [3] (1 / 2) False)))"
proof -
  have a: "state_pos_within [0] [0] (spatial_dim (graph ex1_gs)) (1 / 2)"
    by (simp add: state_pos_within_def ex1_gs_def ex1_graph_def ex_graph_def)
  have b: "length (expanded (snd (Search ex1_gs ex_host 100 ex_members [0] [3] (1 / 2) False))) = 3"
    by code_simp
  have c: "map_sum (\<lambda>f. f) length (fst (Search ex1_gs ex_host 100 ex_members [0] [3] (1 / 2) False)) = Inr 2"
    by code_simp
  from c have c': "\<exists>path. fst (Search ex1_gs ex_host 100 ex_members [0] [3] (1 / 2) False) = Inr path"
    by (cases "fst (Search ex1_gs ex_host 100 ex_members [0] [3] (1 / 2) False)") simp_all
  from b have b': "expanded (snd (Search ex1_gs ex_host 100 ex_members [0] [3] (1 / 2) False)) \<noteq> []"
    by auto
  from a b' c'
    Search_timings [of ex1_gs ex_host 100 ex_members "[0]" "[0]" "1 / 2" False]
    Search_timings [of ex1_gs ex_host 100 ex_members "[0]" "[3]" "1 / 2" False]
  show ?thesis by blast
qed

text \<open>
  C8 as the spec states it fails on the early exit: \<^verbatim>\<open>timings\<close> is cleared at entry and
  the call returns before any label is written.
\<close>

theorem Search_timings_early_exit:
  "state_pos_within [0] [0] (spatial_dim (graph ex1_gs)) (1 / 2) \<and>
   ''astar_pop'' \<notin> dom (timings (snd (Search ex1_gs ex_host 100 ex_members [0] [0] (1 / 2) False)))"
  by (simp add: Search_def state_pos_within_def ex1_gs_def ex1_graph_def ex_graph_def)

section \<open>The visited set is cleared at entry\<close>

text \<open>
  C10: \<^verbatim>\<open>Search\<close> clears the visited set before the early-exit check: a call that leaves by
  the early exit returns the empty path and leaves \<^verbatim>\<open>GetVisitedStates()\<close> empty; and what a
  call returns and leaves behind does not depend on the members left by an earlier call.
\<close>

theorem Search_clears_visited:
  "(state_pos_within start_st end_st (spatial_dim (graph gs)) d \<longrightarrow>
      fst (Search gs hs ok members start_st end_st d parallel) = Inr [] \<and>
      GetVisitedStates (snd (Search gs hs ok members start_st end_st d parallel)) = []) \<and>
   Search gs hs ok members start_st end_st d parallel
     = Search gs hs ok members' start_st end_st d parallel"
  by (cases members; cases members') (simp add: Search_def GetVisitedStates_def Let_def)

theorem Search_clears_visited_witness:
  "state_pos_within [0] [0] (spatial_dim (graph ex1_gs)) (1 / 2) \<and>
   GetVisitedStates ex_members = [[5]] \<and>
   fst (Search ex1_gs ex_host 100 ex_members [0] [0] (1 / 2) False) = Inr [] \<and>
   GetVisitedStates (snd (Search ex1_gs ex_host 100 ex_members [0] [0] (1 / 2) False)) = [] \<and>
   Search ex1_gs ex_host 100 ex_members [0] [3] (1 / 2) False
     = Search ex1_gs ex_host 100 ex_state [0] [3] (1 / 2) False"
proof -
  have a: "state_pos_within [0] [0] (spatial_dim (graph ex1_gs)) (1 / 2)"
    by (simp add: state_pos_within_def ex1_gs_def ex1_graph_def ex_graph_def)
  have b: "GetVisitedStates ex_members = [[5]]"
    by (simp add: GetVisitedStates_def ex_members_def)
  from a b
    Search_clears_visited [of "[0]" "[0]" ex1_gs "1 / 2" ex_host 100 ex_members False ex_state]
    Search_clears_visited [of "[0]" "[3]" ex1_gs "1 / 2" ex_host 100 ex_members False ex_state]
  show ?thesis by blast
qed

section \<open>Serial and parallel expansion\<close>

lemma expand_body_fault:
  "expand_body gs vis node j i = Inl f \<Longrightarrow> f = IndexOutOfBounds"
  by (auto simp: expand_body_def edges_at_def get_mp_between_indices_def Let_def
      split: sum.splits if_splits)

lemma expand_rows_eq:
  "expand_rows gs vis node j rows =
     (if \<exists>i \<in> set rows. \<exists>f. expand_body gs vis node j i = Inl f
      then Inl IndexOutOfBounds
      else Inr (concat (map (body_nodes gs vis node j) rows)))"
proof (induction rows)
  case Nil
  show ?case by simp
next
  case (Cons i rows)
  show ?case
  proof (cases "expand_body gs vis node j i")
    case (Inl f)
    then show ?thesis by (auto dest: expand_body_fault)
  next
    case (Inr r)
    then have "body_nodes gs vis node j i = (case r of None \<Rightarrow> [] | Some n \<Rightarrow> [n])"
      by (simp add: body_nodes_def split: option.splits)
    with Cons Inr show ?thesis
      by auto
  qed
qed

lemma expand_rows_mset:
  assumes "mset rows = mset rows'"
  shows "map_sum (\<lambda>f. f) mset (expand_rows gs vis node j rows)
       = map_sum (\<lambda>f. f) mset (expand_rows gs vis node j rows')"
proof -
  from assms have "set rows = set rows'" by (rule mset_eq_setD)
  moreover have "mset (concat (map g rows)) = mset (concat (map g rows'))" for g :: "nat \<Rightarrow> Node2 list"
  proof -
    have "mset (concat (map g xs)) = (\<Sum>x\<in>#mset xs. mset (g x))" for xs
      by (induction xs) simp_all
    with assms show ?thesis by simp
  qed
  ultimately show ?thesis by (simp add: expand_rows_eq)
qed

lemma ExpandPar_mset:
  assumes "valid_schedule (edges_rows (graph gs)) sch"
  shows "map_sum (\<lambda>f. f) mset (ExpandPar gs sch visited node)
       = map_sum (\<lambda>f. f) mset (Expand gs visited node)"
proof (cases "NormIndex (graph gs) (state_index node)")
  case (Inl f)
  then show ?thesis by (simp add: ExpandPar_def Expand_def)
next
  case (Inr j)
  from assms have "mset (schedule_rows sch) = mset [0 ..< edges_rows (graph gs)]"
    by (simp add: valid_schedule_def)
  from expand_rows_mset [OF this] Inr show ?thesis
    by (simp add: ExpandPar_def Expand_def)
qed

lemma ExpandPar_serial_schedule:
  assumes "schedule_rows sch = [0 ..< edges_rows (graph gs)]"
  shows "ExpandPar gs sch visited node = Expand gs visited node"
  using assms by (simp add: ExpandPar_def Expand_def split: sum.splits)

lemma search_body_serial_schedule:
  assumes "\<And>k. schedule_rows (sched hs k) = [0 ..< edges_rows (graph gs)]"
  shows "search_body gs hs e d True k s = search_body gs hs e d False k s"
  by (simp add: search_body_def Let_def ExpandPar_serial_schedule [OF assms])

lemma search_loop_serial_schedule:
  assumes "\<And>k. schedule_rows (sched hs k) = [0 ..< edges_rows (graph gs)]"
  shows "search_loop gs hs e d True ok s = search_loop gs hs e d False ok s"
  by (induction ok arbitrary: s)
    (simp_all add: search_body_serial_schedule [OF assms] split: sum.splits)

section \<open>Successors, walks and traces\<close>

lemma translate_fields [simp]:
  "cost (translate m s) = cost m"
  "mp_id (translate m s) = mp_id m"
  "mp_spatial_dim (translate m s) = mp_spatial_dim m"
  by (simp_all add: translate_def Let_def)

lemma expand_body_Some:
  assumes "expand_body gs vis p j i = Inr (Some n)"
  obtains mp0 where
    "get_mp_between_indices (graph gs) i j = Inr mp0"
    "\<not> visited_find vis (end_state (translate mp0 (state p)))"
    "is_mp_collision_free gs (translate mp0 (state p))"
    "n = \<lparr>state_index = i, state = end_state (translate mp0 (state p)),
          motion_cost = motion_cost p + cost mp0,
          heuristic_cost = heuristic gs (end_state (translate mp0 (state p)))\<rparr>"
  using assms
  by (auto simp: expand_body_def Let_def split: sum.splits if_splits)

lemma get_mp_edges_at:
  "get_mp_between_indices g i j = Inr mp0 \<Longrightarrow> \<exists>e. edges_at g i j = Inr e \<and> 0 \<le> e"
  by (auto simp: get_mp_between_indices_def split: sum.splits if_splits)

lemma get_mp_in_bank:
  "get_mp_between_indices g i j = Inr mp0 \<Longrightarrow> mp0 \<in> set (mps g)"
  by (auto simp: get_mp_between_indices_def split: sum.splits if_splits)

lemma expand_body_intro:
  assumes "get_mp_between_indices (graph gs) i j = Inr mp0"
    "\<not> visited_find vis (end_state (translate mp0 (state p)))"
    "is_mp_collision_free gs (translate mp0 (state p))"
  shows "expand_body gs vis p j i = Inr (Some \<lparr>state_index = i, state = end_state (translate mp0 (state p)),
          motion_cost = motion_cost p + cost mp0,
          heuristic_cost = heuristic gs (end_state (translate mp0 (state p)))\<rparr>)"
  using assms get_mp_edges_at [OF assms(1)]
  by (auto simp: expand_body_def Let_def)

lemma visited_find_Nil [simp]: "\<not> visited_find [] x"
  by (simp add: visited_find_def)

text \<open>What a successor is.\<close>

lemma successor_Some:
  assumes "successor gs p i = Some (mp, n)"
  obtains j mp0 where
    "NormIndex (graph gs) (state_index p) = Inr j"
    "get_mp_between_indices (graph gs) i j = Inr mp0"
    "mp = translate mp0 (state p)"
    "is_mp_collision_free gs mp"
    "n = \<lparr>state_index = i, state = end_state mp, motion_cost = motion_cost p + cost mp,
          heuristic_cost = heuristic gs (end_state mp)\<rparr>"
proof -
  from assms obtain j where j: "NormIndex (graph gs) (state_index p) = Inr j"
    by (auto simp: successor_def split: sum.splits)
  with assms have b: "expand_body gs [] p j i = Inr (Some n)"
    by (auto simp: successor_def split: sum.splits option.splits)
  from b obtain mp0 where mp0:
    "get_mp_between_indices (graph gs) i j = Inr mp0"
    "is_mp_collision_free gs (translate mp0 (state p))"
    "n = \<lparr>state_index = i, state = end_state (translate mp0 (state p)),
          motion_cost = motion_cost p + cost mp0,
          heuristic_cost = heuristic gs (end_state (translate mp0 (state p)))\<rparr>"
    by (rule expand_body_Some)
  from mp0(3) have "state_index n = i" by simp
  with j mp0(1) have "GetPrimitiveBetween gs p n = Inr (translate mp0 (state p))"
    by (simp add: GetPrimitiveBetween_def)
  with assms j b have "mp = translate mp0 (state p)"
    by (simp add: successor_def)
  with j mp0 that show ?thesis by simp
qed

lemma successor_index: "successor gs p i = Some (mp, n) \<Longrightarrow> state_index n = i"
  by (erule successor_Some) simp

lemma successor_state: "successor gs p i = Some (mp, n) \<Longrightarrow> state n = end_state mp"
  by (erule successor_Some) simp

lemma successor_cost:
  "successor gs p i = Some (mp, n) \<Longrightarrow> motion_cost n = motion_cost p + cost mp"
  by (erule successor_Some) simp

lemma successor_heuristic:
  "successor gs p i = Some (mp, n) \<Longrightarrow> heuristic_cost n = heuristic gs (state n)"
  by (erule successor_Some) simp

lemma successor_collision_free:
  "successor gs p i = Some (mp, n) \<Longrightarrow> is_mp_collision_free gs mp"
  by (erule successor_Some) simp

lemma successor_primitive:
  "successor gs p i = Some (mp, n) \<Longrightarrow> state_index n' = i \<Longrightarrow>
   GetPrimitiveBetween gs p n' = Inr mp"
  by (erule successor_Some) (simp add: GetPrimitiveBetween_def)

lemma successor_positive:
  "positive_costs gs \<Longrightarrow> successor gs p i = Some (mp, n) \<Longrightarrow> 0 < cost mp"
  by (erule successor_Some) (auto simp: positive_costs_def dest: get_mp_in_bank)

text \<open>A node emitted by the loop of an expansion is a successor whose state is not
  visited.\<close>

lemma expand_body_successor:
  assumes "NormIndex (graph gs) (state_index p) = Inr j"
    "expand_body gs vis p j i = Inr (Some n)"
  shows "\<exists>mp. successor gs p i = Some (mp, n)" "\<not> visited_find vis (state n)"
proof -
  from assms(2) obtain mp0 where mp0:
    "get_mp_between_indices (graph gs) i j = Inr mp0"
    "\<not> visited_find vis (end_state (translate mp0 (state p)))"
    "is_mp_collision_free gs (translate mp0 (state p))"
    "n = \<lparr>state_index = i, state = end_state (translate mp0 (state p)),
          motion_cost = motion_cost p + cost mp0,
          heuristic_cost = heuristic gs (end_state (translate mp0 (state p)))\<rparr>"
    by (rule expand_body_Some)
  from mp0(1,3) have "expand_body gs [] p j i = Inr (Some n)"
    unfolding mp0(4) by (intro expand_body_intro) simp_all
  moreover from mp0(4) have "state_index n = i" by simp
  with assms(1) mp0(1) have "GetPrimitiveBetween gs p n = Inr (translate mp0 (state p))"
    by (simp add: GetPrimitiveBetween_def)
  ultimately show "\<exists>mp. successor gs p i = Some (mp, n)"
    using assms(1) by (simp add: successor_def)
  from mp0(2,4) show "\<not> visited_find vis (state n)" by simp
qed

lemma expand_rows_member:
  assumes "expand_rows gs vis p j rows = Inr ns" "n \<in> set ns"
  shows "\<exists>i \<in> set rows. expand_body gs vis p j i = Inr (Some n)"
  using assms
proof (induction rows arbitrary: ns)
  case Nil
  then show ?case by simp
next
  case (Cons i rows)
  from Cons.prems(1) obtain r ms where r: "expand_body gs vis p j i = Inr r"
    and ms: "expand_rows gs vis p j rows = Inr ms"
    and ns: "ns = (case r of None \<Rightarrow> [] | Some n \<Rightarrow> [n]) @ ms"
    by (auto split: sum.splits)
  show ?case
  proof (cases "n \<in> set ms")
    case True
    from Cons.IH [OF ms True] show ?thesis by auto
  next
    case False
    with Cons.prems(2) ns have "r = Some n" by (auto split: option.splits)
    with r show ?thesis by simp
  qed
qed

lemma expand_call_member:
  assumes "expand_call gs hs par s = Inr ns" "n \<in> set ns"
  shows "\<exists>mp. successor gs (pq_top (pq s)) (state_index n) = Some (mp, n)"
    "\<not> visited_find (visited_states (visiting hs s)) (state n)"
proof -
  from assms(1) obtain j rows where j: "NormIndex (graph gs) (state_index (pq_top (pq s))) = Inr j"
    and rows: "expand_rows gs (visited_states (visiting hs s)) (pq_top (pq s)) j rows = Inr ns"
    by (auto simp: expand_call_def ExpandPar_def Expand_def split: if_splits sum.splits)
  from expand_rows_member [OF rows assms(2)] obtain i where
    i: "expand_body gs (visited_states (visiting hs s)) (pq_top (pq s)) j i = Inr (Some n)"
    by blast
  from expand_body_successor [OF j i] obtain mp where
    mp: "successor gs (pq_top (pq s)) i = Some (mp, n)"
    and nv: "\<not> visited_find (visited_states (visiting hs s)) (state n)"
    by blast
  from mp have "state_index n = i" by (rule successor_index)
  with mp show "\<exists>mp. successor gs (pq_top (pq s)) (state_index n) = Some (mp, n)" by auto
  from nv show "\<not> visited_find (visited_states (visiting hs s)) (state n)" .
qed

subsection \<open>Walks\<close>

lemma walk_append:
  "walk gs n (rows @ rows') =
     (case walk gs n rows of
        None \<Rightarrow> None
      | Some (path, m) \<Rightarrow>
          (case walk gs m rows' of
             None \<Rightarrow> None
           | Some (path', t) \<Rightarrow> Some (path @ path', t)))"
  by (induction rows arbitrary: n) (auto split: option.splits)

lemma walk_snoc:
  assumes "walk gs n rows = Some (path, m)" "successor gs m i = Some (mp, t)"
  shows "walk gs n (rows @ [i]) = Some (path @ [mp], t)"
  using assms by (simp add: walk_append)

lemma walk_length:
  "walk gs n rows = Some (path, m) \<Longrightarrow> length path = length rows"
  by (induction rows arbitrary: n path) (auto split: option.splits)

lemma walk_cost:
  "walk gs n rows = Some (path, m) \<Longrightarrow> motion_cost m = motion_cost n + path_cost path"
proof (induction rows arbitrary: n path)
  case Nil
  then show ?case by (simp add: path_cost_def)
next
  case (Cons i rows)
  from Cons.prems obtain mp n' path' where
    s: "successor gs n i = Some (mp, n')" and w: "walk gs n' rows = Some (path', m)"
    and p: "path = mp # path'"
    by (auto split: option.splits)
  from Cons.IH [OF w] successor_cost [OF s] p show ?case
    by (simp add: path_cost_def)
qed

lemma walk_heuristic:
  "walk gs n rows = Some (path, m) \<Longrightarrow> heuristic_cost n = heuristic gs (state n) \<Longrightarrow>
   heuristic_cost m = heuristic gs (state m)"
proof (induction rows arbitrary: n path)
  case Nil
  then show ?case by simp
next
  case (Cons i rows)
  from Cons.prems(1) obtain mp n' path' where
    s: "successor gs n i = Some (mp, n')" and w: "walk gs n' rows = Some (path', m)"
    by (auto split: option.splits)
  from Cons.IH [OF w successor_heuristic [OF s]] show ?case .
qed

lemma walk_collision_free:
  "walk gs n rows = Some (path, m) \<Longrightarrow> \<forall>mp \<in> set path. is_mp_collision_free gs mp"
proof (induction rows arbitrary: n path)
  case Nil
  then show ?case by simp
next
  case (Cons i rows)
  from Cons.prems(1) obtain mp n' path' where
    s: "successor gs n i = Some (mp, n')" and w: "walk gs n' rows = Some (path', m)"
    and p: "path = mp # path'"
    by (auto split: option.splits)
  from Cons.IH [OF w] successor_collision_free [OF s] p show ?case by simp
qed

lemma path_cost_nonneg:
  assumes "positive_costs gs" "walk gs n rows = Some (path, m)"
  shows "0 \<le> path_cost path" "rows \<noteq> [] \<Longrightarrow> 0 < path_cost path"
proof -
  have "0 \<le> path_cost path \<and> (rows \<noteq> [] \<longrightarrow> 0 < path_cost path)"
    using assms(2)
  proof (induction rows arbitrary: n path)
    case Nil
    then show ?case by (simp add: path_cost_def)
  next
    case (Cons i rows)
    from Cons.prems(1) obtain mp n' path' where
      s: "successor gs n i = Some (mp, n')" and w: "walk gs n' rows = Some (path', m)"
      and p: "path = mp # path'"
      by (auto split: option.splits)
    from Cons.IH [OF w] successor_positive [OF assms(1) s] p show ?case
      by (simp add: path_cost_def)
  qed
  then show "0 \<le> path_cost path" "rows \<noteq> [] \<Longrightarrow> 0 < path_cost path" by simp_all
qed

lemma reach_start [simp]: "reach gs s0 s0"
  unfolding reach_def by (rule exI [of _ "[]"]) simp

lemma reach_successor:
  "reach gs s0 p \<Longrightarrow> successor gs p i = Some (mp, n) \<Longrightarrow> reach gs s0 n"
  unfolding reach_def by (blast dest: walk_snoc)

lemma reach_cost:
  assumes "positive_costs gs" "reach gs s0 n" "motion_cost s0 = 0"
  shows "0 \<le> motion_cost n"
  using assms path_cost_nonneg(1) walk_cost unfolding reach_def by fastforce

lemma reach_heuristic:
  "reach gs s0 n \<Longrightarrow> heuristic_cost s0 = heuristic gs (state s0) \<Longrightarrow>
   heuristic_cost n = heuristic gs (state n)"
  unfolding reach_def by (blast dest: walk_heuristic)

subsection \<open>Traces\<close>

lemma trace_walk:
  "trace gs H K s0 n rows path \<Longrightarrow> walk gs s0 rows = Some (path, n)"
  by (induction rule: trace.induct) (simp_all add: walk_snoc)

lemma trace_reach: "trace gs H K s0 n rows path \<Longrightarrow> reach gs s0 n"
  unfolding reach_def by (blast dest: trace_walk)

lemma trace_mono:
  assumes "trace gs H K s0 n rows path" "K \<subseteq> K'" "\<And>k. k \<in> K \<Longrightarrow> H' k = H k"
  shows "trace gs H' K' s0 n rows path"
  using assms(1)
proof (induction rule: trace.induct)
  case trace_start
  show ?case by (rule trace.trace_start)
next
  case (trace_step p rows path n e mp)
  from trace_step.hyps(2,3) assms(3) have "H' (quantize (state n)) = Some e" by simp
  with trace_step assms(2) show ?case
    by (intro trace.trace_step) auto
qed

text \<open>The nodes of a trace other than the start node cost more than nothing, when the
  primitives have positive costs.\<close>

lemma trace_cost:
  assumes "trace gs H K s0 n rows path" "positive_costs gs" "motion_cost s0 = 0"
  shows "0 \<le> motion_cost n" "rows \<noteq> [] \<Longrightarrow> 0 < motion_cost n"
proof -
  from assms(1) have w: "walk gs s0 rows = Some (path, n)" by (rule trace_walk)
  from walk_cost [OF w] assms(3) have "motion_cost n = path_cost path" by simp
  with path_cost_nonneg [OF assms(2) w]
  show "0 \<le> motion_cost n" "rows \<noteq> [] \<Longrightarrow> 0 < motion_cost n" by simp_all
qed

lemma trace_recover:
  assumes "trace gs H K s0 n rows path" "positive_costs gs" "motion_cost s0 = 0"
    "length rows \<le> k"
  shows "recover_loop gs k H n acc = Inr (acc @ rev path)"
  using assms(1,4)
proof (induction arbitrary: k acc rule: trace.induct)
  case trace_start
  with assms(3) show ?case by (cases k) simp_all
next
  case (trace_step p rows path n e mp)
  from trace_step.prems obtain k' where k: "k = Suc k'" "length rows \<le> k'"
    by (cases k) auto
  from trace_step.hyps(5) have "GetPrimitiveBetween gs p n = Inr mp"
    by (rule successor_primitive) simp
  moreover have "motion_cost n \<noteq> 0"
    using trace_cost(2) [OF trace.trace_step [OF trace_step.hyps] assms(2,3)] by simp
  ultimately show ?case
    using trace_step.hyps(3,4) k(1) trace_step.IH [OF k(2), of "acc @ [mp]"] by simp
qed

text \<open>Cut short by the shutdown, the loop of \<^verbatim>\<open>RecoverPath\<close> has appended one primitive per
  poll.\<close>

lemma trace_recover_short:
  assumes "trace gs H K s0 n rows path" "positive_costs gs" "motion_cost s0 = 0"
    "k \<le> length rows"
  shows "\<exists>r. recover_loop gs k H n acc = Inr r \<and> length r = length acc + k"
  using assms(1,4)
proof (induction arbitrary: k acc rule: trace.induct)
  case trace_start
  then show ?case by simp
next
  case (trace_step p rows path n e mp)
  show ?case
  proof (cases k)
    case 0
    then show ?thesis by simp
  next
    case (Suc k')
    with trace_step.prems have k': "k' \<le> length rows" by simp
    from trace_step.hyps(5) have "GetPrimitiveBetween gs p n = Inr mp"
      by (rule successor_primitive) simp
    moreover have "motion_cost n \<noteq> 0"
      using trace_cost(2) [OF trace.trace_step [OF trace_step.hyps] assms(2,3)] by simp
    ultimately show ?thesis
      using trace_step.hyps(3,4) Suc trace_step.IH [OF k', of "acc @ [mp]"] by auto
  qed
qed

text \<open>Whatever the costs and the number of polls, the loop of \<^verbatim>\<open>RecoverPath\<close> appends the
  last primitives of the trace, the last one first.\<close>

lemma trace_recover_suffix:
  assumes "trace gs H K s0 n rows path" "motion_cost s0 = 0"
  shows "\<exists>j. recover_loop gs k H n acc = Inr (acc @ take j (rev path))"
  using assms(1)
proof (induction arbitrary: k acc rule: trace.induct)
  case trace_start
  with assms(2) show ?case by (cases k) simp_all
next
  case (trace_step p rows path n e mp)
  show ?case
  proof (cases k)
    case 0
    then show ?thesis by (intro exI [of _ 0]) simp
  next
    case (Suc k')
    show ?thesis
    proof (cases "motion_cost n = 0")
      case True
      with Suc show ?thesis by (intro exI [of _ 0]) simp
    next
      case False
      from trace_step.hyps(5) have g: "GetPrimitiveBetween gs p n = Inr mp"
        by (rule successor_primitive) simp
      from trace_step.IH [of k' "acc @ [mp]"] obtain j where
        "recover_loop gs k' H p (acc @ [mp]) = Inr ((acc @ [mp]) @ take j (rev path))"
        by blast
      with g False trace_step.hyps(3,4) Suc show ?thesis
        by (intro exI [of _ "Suc j"]) simp
    qed
  qed
qed

subsection \<open>The queue\<close>

lemma pq_top_in: "q \<noteq> [] \<Longrightarrow> pq_top q \<in> set q"
  by (simp add: pq_top_def arg_min_list_in)

lemma pq_top_least: "n \<in> set q \<Longrightarrow> total_cost (pq_top q) \<le> total_cost n"
proof -
  assume n: "n \<in> set q"
  then have "q \<noteq> []" by auto
  then have "total_cost (arg_min_list total_cost q) = Min (total_cost ` set q)"
    by (rule f_arg_min_list_f)
  with n show ?thesis by (simp add: pq_top_def)
qed

lemma pq_pop_subset: "set (pq_pop q) \<subseteq> set q"
  by (simp add: pq_pop_def set_remove1_subset)

lemma pq_pop_keeps: "n \<in> set q \<Longrightarrow> n \<noteq> pq_top q \<Longrightarrow> n \<in> set (pq_pop q)"
  by (simp add: pq_pop_def)

section \<open>The returned path is a walk to a goal node\<close>

lemma vkeys_simps [simp]:
  "vkeys (popped hs s) = vkeys s"
  "vkeys (visiting hs s) = insert (quantize (state (pq_top (pq s)))) (vkeys s)"
  "vkeys (add_timing hs l s) = vkeys s"
  "vkeys (relax hs c s n) = vkeys s"
  "vkeys (foldl (relax hs c) s ns) = vkeys s"
  by (simp_all add: vkeys_def)

lemma visited_find_vkeys: "visited_find (visited_states s) x = (quantize x \<in> vkeys s)"
  by (simp add: visited_find_def vkeys_def)

lemma visit_inv_keys:
  assumes "visit_inv s" "k \<in> vkeys s"
  shows "\<exists>p \<in> set (expanded s). quantize (state p) = k"
proof -
  from assms have "k \<in> (quantize \<circ> state) ` set (expanded s)"
    unfolding visit_inv_def vkeys_def by simp
  then show ?thesis by auto
qed

lemma entry_okI:
  assumes "parent_node en \<in> set (expanded s)"
    "successor gs (parent_node en) (state_index q) = Some (mp, q)"
    "quantize (state q) = k" "best_cost en = Fin (motion_cost q)" "writer_kept s k q"
  shows "entry_ok gs s k en"
  using assms unfolding entry_ok_def by blast

lemma entry_okE:
  assumes "entry_ok gs s k en"
  obtains mp q where "parent_node en \<in> set (expanded s)"
    "successor gs (parent_node en) (state_index q) = Some (mp, q)"
    "quantize (state q) = k" "best_cost en = Fin (motion_cost q)" "writer_kept s k q"
  using assms unfolding entry_ok_def by blast

lemma inv_histD: "inv_hist gs s \<Longrightarrow> history s k = Some en \<Longrightarrow> entry_ok gs s k en"
  by (simp add: inv_hist_def)

text \<open>The entry of the state of the top node was written for the top node itself, when
  that state is not visited yet.\<close>

lemma top_is_writer:
  assumes ok: "lattice_ok gs s0"
    and ipq: "inv_pq gs s0 s" and ih: "inv_hist gs s" and ist: "inv_start s0 s"
    and ne: "pq s \<noteq> []"
    and nv: "quantize (state (pq_top (pq s))) \<notin> vkeys s"
    and en: "history s (quantize (state (pq_top (pq s)))) = Some en"
  shows "\<exists>mp. successor gs (parent_node en) (state_index (pq_top (pq s))) = Some (mp, pq_top (pq s))"
    "best_cost en = Fin (motion_cost (pq_top (pq s)))"
    "parent_node en \<in> set (expanded s)"
proof -
  let ?c = "pq_top (pq s)"
  from ne have cin: "?c \<in> set (pq s)" by (rule pq_top_in)
  from ih en have "entry_ok gs s (quantize (state ?c)) en" by (rule inv_histD)
  then obtain mp q where par: "parent_node en \<in> set (expanded s)"
    and q: "successor gs (parent_node en) (state_index q) = Some (mp, q)"
      "quantize (state q) = quantize (state ?c)" "best_cost en = Fin (motion_cost q)"
    and wk: "writer_kept s (quantize (state ?c)) q"
    by (rule entry_okE)
  from wk nv have qin: "q \<in> set (pq s)" by (simp add: writer_kept_def)
  from en ist cin have "?c \<noteq> s0" unfolding inv_start_def by auto
  with ipq cin en obtain c where c: "best_cost en = Fin c" "c \<le> motion_cost ?c"
    "c = motion_cost ?c \<longrightarrow>
       (\<exists>mp. successor gs (parent_node en) (state_index ?c) = Some (mp, ?c))"
    unfolding inv_pq_def by fastforce
  with q(3) have le: "motion_cost q \<le> motion_cost ?c" and cq: "c = motion_cost q" by simp_all
  from ipq cin qin have r: "reach gs s0 ?c" "reach gs s0 q"
    unfolding inv_pq_def by auto
  with ok q(2) have same: "state q = state ?c"
    unfolding lattice_ok_def quantization_exact_def by metis
  from r ok have "heuristic_cost q = heuristic gs (state q)"
    "heuristic_cost ?c = heuristic gs (state ?c)"
    unfolding lattice_ok_def by (auto intro: reach_heuristic)
  with same have h: "heuristic_cost q = heuristic_cost ?c" by simp
  from qin have "total_cost ?c \<le> total_cost q" by (rule pq_top_least)
  with h le have eq: "motion_cost q = motion_cost ?c" by (simp add: total_cost_def)
  with c(3) cq q(3) par show
    "\<exists>mp. successor gs (parent_node en) (state_index ?c) = Some (mp, ?c)"
    "best_cost en = Fin (motion_cost ?c)" "parent_node en \<in> set (expanded s)"
    by simp_all
qed

lemma sound_inv_cong:
  assumes "pq t = pq s" "history t = history s" "expanded t = expanded s"
    "visited_states t = visited_states s"
  shows "sound_inv gs s0 e d t = sound_inv gs s0 e d s"
  using assms
  by (simp add: sound_inv_def inv_pq_def inv_hist_def entry_ok_def writer_kept_def inv_exp_def
      inv_start_def visit_inv_def vkeys_def)

lemma relax_less:
  assumes "less_ecost (motion_cost n)
             (case history s (quantize (state n)) of None \<Rightarrow> PInf | Some e \<Rightarrow> best_cost e)"
  shows "pq (relax hs c s n) = pq s @ [n]"
    "history (relax hs c s n) = (history s)(quantize (state n) \<mapsto>
        \<lparr>parent_node = c, best_cost = Fin (motion_cost n)\<rparr>)"
  using assms by (simp_all add: relax_eq)

lemma relax_not_less:
  assumes "\<not> less_ecost (motion_cost n)
             (case history s (quantize (state n)) of None \<Rightarrow> PInf | Some e \<Rightarrow> best_cost e)"
  shows "relax hs c s n = s"
  using assms by (simp add: relax_eq)

lemma start_key_visited:
  assumes "inv_start s0 s" "pq s \<noteq> []"
  shows "pq_top (pq s) = s0 \<or> quantize (state s0) \<in> vkeys s"
proof (cases "s0 \<in> set (pq s)")
  case True
  with assms(1) have "pq s = [s0]" by (simp add: inv_start_def)
  then show ?thesis by (simp add: pq_top_def)
next
  case False
  with assms(1) show ?thesis by (simp add: inv_start_def)
qed

lemma start_not_top_after:
  assumes "inv_start s0 s" "pq s \<noteq> []"
  shows "s0 \<notin> set (pq_pop (pq s))"
proof
  assume a: "s0 \<in> set (pq_pop (pq s))"
  with pq_pop_subset have "s0 \<in> set (pq s)" by blast
  with assms(1) have "pq s = [s0]" by (simp add: inv_start_def)
  then have "pq_pop (pq s) = []" by (simp add: pq_pop_def pq_top_def)
  with a show False by simp
qed

text \<open>A stale entry is popped.\<close>

lemma sound_inv_popped:
  assumes ok: "lattice_ok gs s0" and inv: "sound_inv gs s0 e d s" and ne: "pq s \<noteq> []"
    and stale: "quantize (state (pq_top (pq s))) \<in> vkeys s"
  shows "sound_inv gs s0 e d (popped hs s)"
proof -
  from inv have ipq: "inv_pq gs s0 s" and ih: "inv_hist gs s" and ie: "inv_exp gs s0 e d s"
    and ist: "inv_start s0 s" and vi: "visit_inv s"
    by (simp_all add: sound_inv_def)
  have 1: "inv_pq gs s0 (popped hs s)"
    using ipq pq_pop_subset [of "pq s"] unfolding inv_pq_def by auto
  have 2: "inv_hist gs (popped hs s)"
    unfolding inv_hist_def
  proof (intro allI impI)
    fix k en
    assume "history (popped hs s) k = Some en"
    then have "history s k = Some en" by simp
    with ih have "entry_ok gs s k en" by (rule inv_histD)
    then obtain mp q where par: "parent_node en \<in> set (expanded s)"
      and q: "successor gs (parent_node en) (state_index q) = Some (mp, q)"
        "quantize (state q) = k" "best_cost en = Fin (motion_cost q)"
      and wk: "writer_kept s k q"
      by (rule entry_okE)
    have "writer_kept (popped hs s) k q"
    proof (cases "k \<in> vkeys s")
      case True
      with wk show ?thesis by (simp add: writer_kept_def)
    next
      case False
      with wk have "q \<in> set (pq s)" by (simp add: writer_kept_def)
      moreover from False stale q(2) have "q \<noteq> pq_top (pq s)" by auto
      ultimately have "q \<in> set (pq_pop (pq s))" by (rule pq_pop_keeps)
      with False show ?thesis by (simp add: writer_kept_def)
    qed
    with par q show "entry_ok gs (popped hs s) k en"
      by (intro entry_okI [where q = q and mp = mp]) simp_all
  qed
  have 3: "inv_exp gs s0 e d (popped hs s)"
    using ie by (simp add: inv_exp_def)
  have 4: "inv_start s0 (popped hs s)"
    using start_not_top_after [OF ist ne] start_key_visited [OF ist ne] stale
    by (auto simp: inv_start_def)
  have 5: "visit_inv (popped hs s)"
    using vi by (simp add: visit_inv_cong [of "popped hs s" s])
  from 1 2 3 4 5 show ?thesis by (simp add: sound_inv_def)
qed

text \<open>The top node is taken off the queue and its state inserted into the visited set.\<close>

lemma sound_inv_visiting:
  assumes ok: "lattice_ok gs s0" and inv: "sound_inv gs s0 e d s" and ne: "pq s \<noteq> []"
    and fresh: "quantize (state (pq_top (pq s))) \<notin> vkeys s"
    and ng: "\<not> state_pos_within (state (pq_top (pq s))) e (spatial_dim (graph gs)) d"
  shows "sound_inv gs s0 e d (visiting hs s)"
proof -
  let ?c = "pq_top (pq s)"
  let ?K' = "insert (quantize (state ?c)) (vkeys s)"
  from inv have ipq: "inv_pq gs s0 s" and ih: "inv_hist gs s" and ie: "inv_exp gs s0 e d s"
    and ist: "inv_start s0 s" and vi: "visit_inv s"
    by (simp_all add: sound_inv_def)
  from ne have cin: "?c \<in> set (pq s)" by (rule pq_top_in)
  have 1: "inv_pq gs s0 (visiting hs s)"
    using ipq pq_pop_subset [of "pq s"] unfolding inv_pq_def by auto
  have 2: "inv_hist gs (visiting hs s)"
    unfolding inv_hist_def
  proof (intro allI impI)
    fix k en
    assume "history (visiting hs s) k = Some en"
    then have en: "history s k = Some en" by simp
    with ih have "entry_ok gs s k en" by (rule inv_histD)
    then obtain mp q where par: "parent_node en \<in> set (expanded s)"
      and q: "successor gs (parent_node en) (state_index q) = Some (mp, q)"
        "quantize (state q) = k" "best_cost en = Fin (motion_cost q)"
      and wk: "writer_kept s k q"
      by (rule entry_okE)
    show "entry_ok gs (visiting hs s) k en"
    proof (cases "k = quantize (state ?c)")
      case True
      with en have "history s (quantize (state ?c)) = Some en" by simp
      from top_is_writer [OF ok ipq ih ist ne fresh this] obtain mp' where
        "successor gs (parent_node en) (state_index ?c) = Some (mp', ?c)"
        "best_cost en = Fin (motion_cost ?c)"
        by blast
      with par True show ?thesis
        by (intro entry_okI [where q = ?c and mp = mp']) (simp_all add: writer_kept_def)
    next
      case nk: False
      have "writer_kept (visiting hs s) k q"
      proof (cases "k \<in> vkeys s")
        case True
        with wk show ?thesis by (simp add: writer_kept_def)
      next
        case False
        with wk have "q \<in> set (pq s)" by (simp add: writer_kept_def)
        moreover from nk q(2) have "q \<noteq> ?c" by auto
        ultimately have "q \<in> set (pq_pop (pq s))" by (rule pq_pop_keeps)
        with False nk show ?thesis by (simp add: writer_kept_def)
      qed
      with par q show ?thesis
        by (intro entry_okI [where q = q and mp = mp]) simp_all
    qed
  qed
  have old: "\<exists>rows path. trace gs (history s) ?K' s0 p rows path"
    if "p \<in> set (expanded s)" for p
  proof -
    from ie that obtain rows path where "trace gs (history s) (vkeys s) s0 p rows path"
      unfolding inv_exp_def by blast
    then have "trace gs (history s) ?K' s0 p rows path"
      by (rule trace_mono) auto
    then show ?thesis by blast
  qed
  have new: "\<exists>rows path. trace gs (history s) ?K' s0 ?c rows path"
  proof (cases "?c = s0")
    case True
    then show ?thesis using trace.trace_start [of gs "history s" ?K' s0] by auto
  next
    case False
    with ipq cin obtain en where en: "history s (quantize (state ?c)) = Some en"
      unfolding inv_pq_def by blast
    from top_is_writer [OF ok ipq ih ist ne fresh en] obtain mp where
      suc: "successor gs (parent_node en) (state_index ?c) = Some (mp, ?c)"
      and par: "parent_node en \<in> set (expanded s)"
      by blast
    from old [OF par] obtain rows path where
      tr: "trace gs (history s) ?K' s0 (parent_node en) rows path"
      by blast
    from tr en suc
    have "trace gs (history s) ?K' s0 ?c (rows @ [state_index ?c]) (path @ [mp])"
      by (intro trace.trace_step) simp_all
    then show ?thesis by blast
  qed
  have 3: "inv_exp gs s0 e d (visiting hs s)"
    using ie ng old new by (auto simp: inv_exp_def)
  have 4: "inv_start s0 (visiting hs s)"
    using start_not_top_after [OF ist ne] start_key_visited [OF ist ne]
    by (auto simp: inv_start_def)
  have 5: "visit_inv (visiting hs s)"
    using vi fresh by (intro visit_inv_visiting) (simp_all add: visited_find_vkeys)
  from 1 2 3 4 5 show ?thesis by (simp add: sound_inv_def)
qed

text \<open>One successor is compared with the history.\<close>

lemma sound_inv_relax:
  assumes ok: "lattice_ok gs s0" and inv: "sound_inv gs s0 e d s"
    and ns0: "s0 \<notin> set (pq s)" and cin: "c \<in> set (expanded s)"
    and suc: "successor gs c (state_index n) = Some (mp, n)"
    and nv: "quantize (state n) \<notin> vkeys s"
  shows "sound_inv gs s0 e d (relax hs c s n) \<and> s0 \<notin> set (pq (relax hs c s n))"
proof (cases "less_ecost (motion_cost n)
             (case history s (quantize (state n)) of None \<Rightarrow> PInf | Some e \<Rightarrow> best_cost e)")
  case False
  with inv ns0 show ?thesis by (simp add: relax_not_less)
next
  case less: True
  let ?s' = "relax hs c s n"
  let ?k = "quantize (state n)"
  let ?new = "\<lparr>parent_node = c, best_cost = Fin (motion_cost n)\<rparr>"
  note r = relax_less [OF less, of hs c]
  from inv have ipq: "inv_pq gs s0 s" and ih: "inv_hist gs s" and ie: "inv_exp gs s0 e d s"
    and ist: "inv_start s0 s" and vi: "visit_inv s"
    by (simp_all add: sound_inv_def)
  from ie cin obtain rows path where tr: "trace gs (history s) (vkeys s) s0 c rows path"
    unfolding inv_exp_def by blast
  then have rc: "reach gs s0 c" by (rule trace_reach)
  from rc suc have rn: "reach gs s0 n" by (rule reach_successor)
  from ist ns0 have k0: "quantize (state s0) \<in> vkeys s" by (simp add: inv_start_def)
  with nv have nn: "n \<noteq> s0" by auto
  have 1: "inv_pq gs s0 ?s'"
    unfolding inv_pq_def
  proof (intro ballI conjI impI)
    fix m assume "m \<in> set (pq ?s')"
    with r(1) have m: "m = n \<or> m \<in> set (pq s)" by auto
    with rn ipq show "reach gs s0 m" unfolding inv_pq_def by auto
    assume ms0: "m \<noteq> s0"
    show "\<exists>en c. history ?s' (quantize (state m)) = Some en \<and> best_cost en = Fin c \<and>
        c \<le> motion_cost m \<and>
        (c = motion_cost m \<longrightarrow>
           (\<exists>mp. successor gs (parent_node en) (state_index m) = Some (mp, m)))"
    proof (cases "quantize (state m) = ?k")
      case False
      with m have "m \<in> set (pq s)" by auto
      with ipq ms0 obtain en c where "history s (quantize (state m)) = Some en"
        "best_cost en = Fin c" "c \<le> motion_cost m"
        "c = motion_cost m \<longrightarrow>
           (\<exists>mp. successor gs (parent_node en) (state_index m) = Some (mp, m))"
        unfolding inv_pq_def by blast
      with False r(2) show ?thesis by simp
    next
      case True
      show ?thesis
      proof (cases "m = n")
        case mn: True
        with True r(2) suc show ?thesis by simp
      next
        case False
        with m have "m \<in> set (pq s)" by simp
        with ipq ms0 True obtain en c where "history s ?k = Some en" "best_cost en = Fin c"
          "c \<le> motion_cost m"
          unfolding inv_pq_def by metis
        with less have "motion_cost n < motion_cost m" by simp
        with True r(2) show ?thesis by simp
      qed
    qed
  qed
  have 2: "inv_hist gs ?s'"
    unfolding inv_hist_def
  proof (intro allI impI)
    fix k en
    assume en: "history ?s' k = Some en"
    show "entry_ok gs ?s' k en"
    proof (cases "k = ?k")
      case True
      with en r(2) have "en = ?new" by simp
      with cin suc True nv r(1) show ?thesis
        by (intro entry_okI [where q = n and mp = mp]) (simp_all add: writer_kept_def)
    next
      case False
      with en r(2) have "history s k = Some en" by simp
      with ih have "entry_ok gs s k en" by (rule inv_histD)
      then obtain mp' q where par: "parent_node en \<in> set (expanded s)"
        and q: "successor gs (parent_node en) (state_index q) = Some (mp', q)"
          "quantize (state q) = k" "best_cost en = Fin (motion_cost q)"
        and wk: "writer_kept s k q"
        by (rule entry_okE)
      from wk r(1) have "writer_kept ?s' k q" by (simp add: writer_kept_def)
      with par q show ?thesis
        by (intro entry_okI [where q = q and mp = mp']) simp_all
    qed
  qed
  have 3: "inv_exp gs s0 e d ?s'"
    unfolding inv_exp_def
  proof (intro ballI conjI)
    fix p assume "p \<in> set (expanded ?s')"
    then have p: "p \<in> set (expanded s)" by simp
    with ie obtain rows' path' where "trace gs (history s) (vkeys s) s0 p rows' path'"
      unfolding inv_exp_def by blast
    then have "trace gs (history ?s') (vkeys s) s0 p rows' path'"
    proof (rule trace_mono)
      fix k' assume "k' \<in> vkeys s"
      with nv r(2) show "history ?s' k' = history s k'" by auto
    qed simp
    then show "\<exists>rows path. trace gs (history ?s') (vkeys ?s') s0 p rows path" by auto
    from ie p show "\<not> state_pos_within (state p) e (spatial_dim (graph gs)) d"
      unfolding inv_exp_def by blast
  qed
  from ns0 nn r(1) have 4: "s0 \<notin> set (pq ?s')" by auto
  with k0 have 6: "inv_start s0 ?s'" by (simp add: inv_start_def)
  have 5: "visit_inv ?s'"
    using vi by (simp add: visit_inv_cong [of ?s' s])
  from 1 2 3 4 5 6 show ?thesis by (simp add: sound_inv_def)
qed

lemma sound_inv_foldl_relax:
  assumes ok: "lattice_ok gs s0" and inv: "sound_inv gs s0 e d s"
    and ns0: "s0 \<notin> set (pq s)" and cin: "c \<in> set (expanded s)"
    and suc: "\<And>n. n \<in> set ns \<Longrightarrow>
        (\<exists>mp. successor gs c (state_index n) = Some (mp, n)) \<and> quantize (state n) \<notin> vkeys s"
  shows "sound_inv gs s0 e d (foldl (relax hs c) s ns)"
  using inv ns0 cin suc
proof (induction ns arbitrary: s)
  case Nil
  then show ?case by simp
next
  case (Cons n ns)
  from Cons.prems(4) [of n] obtain mp where
    "successor gs c (state_index n) = Some (mp, n)" "quantize (state n) \<notin> vkeys s"
    by auto
  from sound_inv_relax [OF ok Cons.prems(1,2,3) this, of hs]
  have a: "sound_inv gs s0 e d (relax hs c s n)" "s0 \<notin> set (pq (relax hs c s n))"
    by simp_all
  have "sound_inv gs s0 e d (foldl (relax hs c) (relax hs c s n) ns)"
  proof (rule Cons.IH [OF a])
    from Cons.prems(3) show "c \<in> set (expanded (relax hs c s n))" by simp
  next
    fix m assume "m \<in> set ns"
    with Cons.prems(4) [of m]
    show "(\<exists>mp. successor gs c (state_index m) = Some (mp, m)) \<and>
        quantize (state m) \<notin> vkeys (relax hs c s n)"
      by simp
  qed
  then show ?case by simp
qed

text \<open>The body of the loop keeps the invariant.\<close>

lemma sound_inv_body:
  assumes ok: "lattice_ok gs s0" and inv: "sound_inv gs s0 e d s" and ne: "pq s \<noteq> []"
    and body: "search_body gs hs e d par k s = Inr s'"
  shows "sound_inv gs s0 e d s'"
  using body
proof (cases rule: search_body_cases)
  case goal
  then show ?thesis by simp
next
  case stale
  with sound_inv_popped [OF ok inv ne, of hs] show ?thesis
    by (simp add: visited_find_vkeys)
next
  case (fault f)
  then show ?thesis by simp
next
  case (expand ns)
  let ?c = "pq_top (pq s)"
  let ?s3 = "add_timing hs ''astar_expand'' (visiting hs s)"
  from expand(1,2) have v: "sound_inv gs s0 e d (visiting hs s)"
    by (intro sound_inv_visiting [OF ok inv ne]) (simp_all add: visited_find_vkeys)
  then have 3: "sound_inv gs s0 e d ?s3"
    by (simp add: sound_inv_cong [of ?s3 "visiting hs s"])
  from inv have "inv_start s0 s" by (simp add: sound_inv_def)
  from start_not_top_after [OF this ne] have ns0: "s0 \<notin> set (pq ?s3)" by simp
  have cin: "?c \<in> set (expanded ?s3)" by simp
  have "sound_inv gs s0 e d (foldl (relax hs ?c) ?s3 ns)"
  proof (rule sound_inv_foldl_relax [OF ok 3 ns0 cin])
    fix n assume "n \<in> set ns"
    from expand_call_member [OF expand(3) this]
    show "(\<exists>mp. successor gs ?c (state_index n) = Some (mp, n)) \<and>
        quantize (state n) \<notin> vkeys ?s3"
      by (simp add: visited_find_def vkeys_def)
  qed
  with expand(4) show ?thesis by simp
qed

lemma trace_rows_nonempty:
  "trace gs H K s0 n rows path \<Longrightarrow> n \<noteq> s0 \<Longrightarrow> rows \<noteq> []"
  by (induction rule: trace.induct) simp_all

text \<open>The history leads from the top node back to the start, when the state of the top
  node is not visited yet.\<close>

lemma top_trace:
  assumes ok: "lattice_ok gs s0" and inv: "sound_inv gs s0 e d s" and ne: "pq s \<noteq> []"
    and fresh: "quantize (state (pq_top (pq s))) \<notin> vkeys s"
  shows "\<exists>rows path. trace gs (history s) (insert (quantize (state (pq_top (pq s)))) (vkeys s))
            s0 (pq_top (pq s)) rows path"
proof -
  let ?c = "pq_top (pq s)"
  let ?K' = "insert (quantize (state ?c)) (vkeys s)"
  from inv have ipq: "inv_pq gs s0 s" and ih: "inv_hist gs s" and ie: "inv_exp gs s0 e d s"
    and ist: "inv_start s0 s"
    by (simp_all add: sound_inv_def)
  from ne have cin: "?c \<in> set (pq s)" by (rule pq_top_in)
  show ?thesis
  proof (cases "?c = s0")
    case True
    then show ?thesis using trace.trace_start [of gs "history s" ?K' s0] by auto
  next
    case False
    with ipq cin obtain en where en: "history s (quantize (state ?c)) = Some en"
      unfolding inv_pq_def by blast
    from top_is_writer [OF ok ipq ih ist ne fresh en] obtain mp where
      suc: "successor gs (parent_node en) (state_index ?c) = Some (mp, ?c)"
      and par: "parent_node en \<in> set (expanded s)"
      by blast
    from ie par obtain rows path where
      "trace gs (history s) (vkeys s) s0 (parent_node en) rows path"
      unfolding inv_exp_def by blast
    then have tr: "trace gs (history s) ?K' s0 (parent_node en) rows path"
      by (rule trace_mono) auto
    from tr en suc
    have "trace gs (history s) ?K' s0 ?c (rows @ [state_index ?c]) (path @ [mp])"
      by (intro trace.trace_step) simp_all
    then show ?thesis by blast
  qed
qed

text \<open>A top node that passes the goal test has a state that is not visited.\<close>

lemma goal_top_fresh:
  assumes ok: "lattice_ok gs s0" and inv: "sound_inv gs s0 e d s" and ne: "pq s \<noteq> []"
    and goal: "state_pos_within (state (pq_top (pq s))) e (spatial_dim (graph gs)) d"
  shows "quantize (state (pq_top (pq s))) \<notin> vkeys s"
proof
  let ?c = "pq_top (pq s)"
  assume "quantize (state ?c) \<in> vkeys s"
  moreover from inv have vi: "visit_inv s" and ie: "inv_exp gs s0 e d s"
    and ipq: "inv_pq gs s0 s"
    by (simp_all add: sound_inv_def)
  ultimately obtain p where p: "p \<in> set (expanded s)" "quantize (state p) = quantize (state ?c)"
    using visit_inv_keys by blast
  from ie p(1) have rp: "reach gs s0 p"
    and ng: "\<not> state_pos_within (state p) e (spatial_dim (graph gs)) d"
    unfolding inv_exp_def by (auto intro: trace_reach)
  from ipq pq_top_in [OF ne] have "reach gs s0 ?c" unfolding inv_pq_def by blast
  with ok rp p(2) have "state p = state ?c"
    unfolding lattice_ok_def quantization_exact_def by metis
  with ng goal show False by simp
qed

text \<open>What \<^verbatim>\<open>RecoverPath\<close> returns for a top node that passes the goal test: the primitives
  of a walk from the start to that node when enough polls are left, and one primitive per
  poll otherwise.\<close>

lemma goal_exit_path:
  assumes ok: "lattice_ok gs s0" and pc: "positive_costs gs"
    and inv: "sound_inv gs s0 e d s" and ne: "pq s \<noteq> []"
    and goal: "state_pos_within (state (pq_top (pq s))) e (spatial_dim (graph gs)) d"
  shows "\<exists>rows path. walk gs s0 rows = Some (path, pq_top (pq s)) \<and>
           (\<forall>k. length rows \<le> k \<longrightarrow> RecoverPath gs k (history s) (pq_top (pq s)) = Inr path) \<and>
           (\<forall>k. k \<le> length rows \<longrightarrow>
              (\<exists>r. RecoverPath gs k (history s) (pq_top (pq s)) = Inr r \<and> length r = k))"
proof -
  let ?c = "pq_top (pq s)"
  from goal_top_fresh [OF ok inv ne goal] have fresh: "quantize (state ?c) \<notin> vkeys s" .
  from top_trace [OF ok inv ne fresh] obtain rows path where
    tr: "trace gs (history s) (insert (quantize (state ?c)) (vkeys s)) s0 ?c rows path"
    by blast
  from ok have c0: "motion_cost s0 = 0" by (simp add: lattice_ok_def)
  have "walk gs s0 rows = Some (path, ?c)" using tr by (rule trace_walk)
  moreover have "RecoverPath gs k (history s) ?c = Inr path" if "length rows \<le> k" for k
    using trace_recover [OF tr pc c0 that, of "[]"] by (simp add: RecoverPath_def)
  moreover have "\<exists>r. RecoverPath gs k (history s) ?c = Inr r \<and> length r = k"
    if "k \<le> length rows" for k
    using trace_recover_short [OF tr pc c0 that, of "[]"] by (auto simp: RecoverPath_def)
  ultimately show ?thesis by blast
qed

text \<open>Whatever the costs and the number of polls, it returns the last primitives of such a
  walk.\<close>

lemma goal_exit_suffix:
  assumes ok: "lattice_ok gs s0" and inv: "sound_inv gs s0 e d s" and ne: "pq s \<noteq> []"
    and goal: "state_pos_within (state (pq_top (pq s))) e (spatial_dim (graph gs)) d"
  shows "\<exists>rows full j. walk gs s0 rows = Some (full, pq_top (pq s)) \<and>
           RecoverPath gs k (history s) (pq_top (pq s)) = Inr (drop j full)"
proof -
  let ?c = "pq_top (pq s)"
  from goal_top_fresh [OF ok inv ne goal] have fresh: "quantize (state ?c) \<notin> vkeys s" .
  from top_trace [OF ok inv ne fresh] obtain rows full where
    tr: "trace gs (history s) (insert (quantize (state ?c)) (vkeys s)) s0 ?c rows full"
    by blast
  from ok have c0: "motion_cost s0 = 0" by (simp add: lattice_ok_def)
  from trace_recover_suffix [OF tr c0, of k "[]"] obtain j where
    "recover_loop gs k (history s) ?c [] = Inr (take j (rev full))"
    by auto
  then have "RecoverPath gs k (history s) ?c = Inr (drop (length full - j) full)"
    by (simp add: RecoverPath_def rev_take)
  with trace_walk [OF tr] show ?thesis by blast
qed

text \<open>When the loop has returned a path that is not empty, it has left through the goal
  test, and with one more poll it leaves there as well.\<close>

lemma search_body_polls:
  "search_body gs hs e d par k s = Inr s' \<Longrightarrow> search_body gs hs e d par k' s = Inr s'"
  by (auto simp: search_body_def Let_def split: if_splits sum.splits)

lemma search_body_fault_polls:
  "search_body gs hs e d par k s = Inl (Inl f, s') \<Longrightarrow>
   state_pos_within (state (pq_top (pq s))) e (spatial_dim (graph gs)) d \<or>
   search_body gs hs e d par k' s = Inl (Inl f, s')"
  by (auto simp: search_body_def Let_def split: if_splits sum.splits)

lemma search_loop_goal_exit:
  assumes "I s"
    and step: "\<And>k t t'. I t \<Longrightarrow> pq t \<noteq> [] \<Longrightarrow> search_body gs hs e d par k t = Inr t' \<Longrightarrow> I t'"
    and res: "fst (search_loop gs hs e d par ok s) = Inr path" "path \<noteq> []"
  shows "\<exists>t k. I t \<and> pq t \<noteq> [] \<and>
           state_pos_within (state (pq_top (pq t))) e (spatial_dim (graph gs)) d \<and>
           search_loop gs hs e d par ok s = (RecoverPath gs k (history t) (pq_top (pq t)), t) \<and>
           search_loop gs hs e d par (Suc ok) s
             = (RecoverPath gs (Suc k) (history t) (pq_top (pq t)), t)"
  using assms(1) res(1)
proof (induction ok arbitrary: s)
  case 0
  with res(2) show ?case by simp
next
  case (Suc ok)
  from Suc.prems(2) res(2) have ne: "pq s \<noteq> []" by (auto split: if_splits)
  show ?case
  proof (cases "state_pos_within (state (pq_top (pq s))) e (spatial_dim (graph gs)) d")
    case True
    then have "search_body gs hs e d par k s = Inl (RecoverPath gs k (history s) (pq_top (pq s)), s)"
      for k by (simp add: search_body_def)
    with ne True Suc.prems(1) show ?thesis
      by (intro exI [of _ s] exI [of _ ok]) simp
  next
    case ng: False
    show ?thesis
    proof (cases "search_body gs hs e d par ok s")
      case (Inl r)
      with ng obtain f s' where "r = (Inl f, s')"
        by (auto simp: search_body_def Let_def split: if_splits sum.splits)
      with Inl ne Suc.prems(2) show ?thesis by simp
    next
      case (Inr s')
      with ne Suc.prems(1) have I': "I s'" by (auto intro: step)
      from Inr have b: "search_body gs hs e d par (Suc ok) s = Inr s'"
        by (rule search_body_polls)
      from Inr ne Suc.prems(2) have "fst (search_loop gs hs e d par ok s') = Inr path"
        by simp
      from Suc.IH [OF I' this] obtain t k where
        "I t" "pq t \<noteq> []"
        "state_pos_within (state (pq_top (pq t))) e (spatial_dim (graph gs)) d"
        "search_loop gs hs e d par ok s' = (RecoverPath gs k (history t) (pq_top (pq t)), t)"
        "search_loop gs hs e d par (Suc ok) s'
           = (RecoverPath gs (Suc k) (history t) (pq_top (pq t)), t)"
        by blast
      with Inr b ne show ?thesis
        by (intro exI [of _ t] exI [of _ k]) simp
    qed
  qed
qed

lemma Search_eq_loop:
  assumes "\<not> state_pos_within start_st end_st (spatial_dim (graph gs)) d"
  shows "Search gs hs ok members start_st end_st d par
       = search_loop gs hs end_st d par ok (init_state members (start_node gs start_st))"
  using assms
  by (cases members) (simp add: Search_def Let_def init_state_def start_node_def pq_push_def)

lemma Search_early:
  assumes "state_pos_within start_st end_st (spatial_dim (graph gs)) d"
  shows "fst (Search gs hs ok members start_st end_st d par) = Inr []"
  using assms by (simp add: Search_def Let_def)

lemma lattice_okI:
  "quantization_exact gs (start_node gs start_st) \<Longrightarrow> lattice_ok gs (start_node gs start_st)"
  by (simp add: lattice_ok_def start_node_def)

lemma sound_inv_init: "sound_inv gs s0 e d (init_state members s0)"
  by (simp add: sound_inv_def inv_pq_def inv_hist_def inv_exp_def inv_start_def visit_inv_def
      init_state_def)

text \<open>A path that is returned, and is returned with one more poll as well, is the list of
  primitives of a walk from the start node to the top of the queue, which passes the goal
  test.\<close>

lemma Search_sound:
  assumes qe: "quantization_exact gs (start_node gs start_st)" and pc: "positive_costs gs"
    and res: "Search gs hs ok members start_st end_st d par = (Inr path, s')" "path \<noteq> []"
    and nc: "fst (Search gs hs (Suc ok) members start_st end_st d par) = Inr path"
  shows "\<exists>rows. walk gs (start_node gs start_st) rows = Some (path, pq_top (pq s'))"
    "state_pos_within (state (pq_top (pq s'))) end_st (spatial_dim (graph gs)) d"
    "sound_inv gs (start_node gs start_st) end_st d s'" "pq s' \<noteq> []"
proof -
  let ?s0 = "start_node gs start_st"
  let ?init = "init_state members ?s0"
  from qe have ok: "lattice_ok gs ?s0" by (rule lattice_okI)
  from res have ne: "\<not> state_pos_within start_st end_st (spatial_dim (graph gs)) d"
    using Search_early [of start_st end_st gs d hs ok members par] by auto
  note eq = Search_eq_loop [OF ne, of hs _ members par]
  from res eq have r1: "fst (search_loop gs hs end_st d par ok ?init) = Inr path" by simp
  have "\<exists>t k. sound_inv gs ?s0 end_st d t \<and> pq t \<noteq> [] \<and>
           state_pos_within (state (pq_top (pq t))) end_st (spatial_dim (graph gs)) d \<and>
           search_loop gs hs end_st d par ok ?init
             = (RecoverPath gs k (history t) (pq_top (pq t)), t) \<and>
           search_loop gs hs end_st d par (Suc ok) ?init
             = (RecoverPath gs (Suc k) (history t) (pq_top (pq t)), t)"
  proof (rule search_loop_goal_exit [where I = "sound_inv gs ?s0 end_st d", OF _ _ r1 res(2)])
    show "sound_inv gs ?s0 end_st d ?init" by (rule sound_inv_init)
  next
    fix k t t'
    assume "sound_inv gs ?s0 end_st d t" "pq t \<noteq> []" "search_body gs hs end_st d par k t = Inr t'"
    with ok show "sound_inv gs ?s0 end_st d t'" by (rule sound_inv_body)
  qed
  then obtain t k where t: "sound_inv gs ?s0 end_st d t" "pq t \<noteq> []"
    "state_pos_within (state (pq_top (pq t))) end_st (spatial_dim (graph gs)) d"
    and l1: "search_loop gs hs end_st d par ok ?init
             = (RecoverPath gs k (history t) (pq_top (pq t)), t)"
    and l2: "search_loop gs hs end_st d par (Suc ok) ?init
             = (RecoverPath gs (Suc k) (history t) (pq_top (pq t)), t)"
    by blast
  have e1: "search_loop gs hs end_st d par ok ?init = (Inr path, s')"
    using res(1) eq by simp
  have s': "s' = t" and p1: "RecoverPath gs k (history t) (pq_top (pq t)) = Inr path"
    using e1 l1 by (metis Pair_inject)+
  from nc eq l2 have p2: "RecoverPath gs (Suc k) (history t) (pq_top (pq t)) = Inr path"
    by simp
  from goal_exit_path [OF ok pc t] obtain rows full where
    w: "walk gs ?s0 rows = Some (full, pq_top (pq t))"
    and long: "\<And>k. length rows \<le> k \<Longrightarrow> RecoverPath gs k (history t) (pq_top (pq t)) = Inr full"
    and short: "\<And>k. k \<le> length rows \<Longrightarrow>
        \<exists>r. RecoverPath gs k (history t) (pq_top (pq t)) = Inr r \<and> length r = k"
    by blast
  have "path = full"
  proof (cases "length rows \<le> k")
    case True
    from long [OF True] p1 show ?thesis by simp
  next
    case False
    then have "k \<le> length rows" "Suc k \<le> length rows" by simp_all
    from short [OF this(1)] short [OF this(2)] p1 p2 show ?thesis by auto
  qed
  with w s' show "\<exists>rows. walk gs ?s0 rows = Some (path, pq_top (pq s'))" by auto
  from t s' show "state_pos_within (state (pq_top (pq s'))) end_st (spatial_dim (graph gs)) d"
    "sound_inv gs ?s0 end_st d s'" "pq s' \<noteq> []"
    by simp_all
qed

text \<open>A path that is returned and not empty consists of the last primitives of a walk
  from the start node to the top of the queue, which passes the goal test.\<close>

lemma Search_suffix:
  assumes qe: "quantization_exact gs (start_node gs start_st)"
    and res: "Search gs hs ok members start_st end_st d par = (Inr path, s')" "path \<noteq> []"
  shows "\<exists>rows full j. walk gs (start_node gs start_st) rows = Some (full, pq_top (pq s')) \<and>
           path = drop j full"
    "state_pos_within (state (pq_top (pq s'))) end_st (spatial_dim (graph gs)) d"
proof -
  let ?s0 = "start_node gs start_st"
  let ?init = "init_state members ?s0"
  from qe have ok: "lattice_ok gs ?s0" by (rule lattice_okI)
  from res have ne: "\<not> state_pos_within start_st end_st (spatial_dim (graph gs)) d"
    using Search_early [of start_st end_st gs d hs ok members par] by auto
  note eq = Search_eq_loop [OF ne, of hs _ members par]
  from res eq have r1: "fst (search_loop gs hs end_st d par ok ?init) = Inr path" by simp
  have "\<exists>t k. sound_inv gs ?s0 end_st d t \<and> pq t \<noteq> [] \<and>
           state_pos_within (state (pq_top (pq t))) end_st (spatial_dim (graph gs)) d \<and>
           search_loop gs hs end_st d par ok ?init
             = (RecoverPath gs k (history t) (pq_top (pq t)), t) \<and>
           search_loop gs hs end_st d par (Suc ok) ?init
             = (RecoverPath gs (Suc k) (history t) (pq_top (pq t)), t)"
  proof (rule search_loop_goal_exit [where I = "sound_inv gs ?s0 end_st d", OF _ _ r1 res(2)])
    show "sound_inv gs ?s0 end_st d ?init" by (rule sound_inv_init)
  next
    fix k t t'
    assume "sound_inv gs ?s0 end_st d t" "pq t \<noteq> []" "search_body gs hs end_st d par k t = Inr t'"
    with ok show "sound_inv gs ?s0 end_st d t'" by (rule sound_inv_body)
  qed
  then obtain t k where t: "sound_inv gs ?s0 end_st d t" "pq t \<noteq> []"
    "state_pos_within (state (pq_top (pq t))) end_st (spatial_dim (graph gs)) d"
    and l1: "search_loop gs hs end_st d par ok ?init
             = (RecoverPath gs k (history t) (pq_top (pq t)), t)"
    by blast
  have e1: "search_loop gs hs end_st d par ok ?init = (Inr path, s')"
    using res(1) eq by simp
  have s': "s' = t" and p1: "RecoverPath gs k (history t) (pq_top (pq t)) = Inr path"
    using e1 l1 by (metis Pair_inject)+
  from goal_exit_suffix [OF ok t, of k] p1 s'
  show "\<exists>rows full j. walk gs ?s0 rows = Some (full, pq_top (pq s')) \<and> path = drop j full"
    by auto
  from t(3) s'
  show "state_pos_within (state (pq_top (pq s'))) end_st (spatial_dim (graph gs)) d"
    by simp
qed

subsection \<open>The primitives of a walk chain\<close>

lemma add_head_length [simp]: "length (add_head delta v) = length v"
  by (simp add: add_head_def)

lemma take_add_head:
  assumes "length delta = n" "n \<le> length v"
  shows "take n (add_head delta v) = map2 (+) (take n v) delta"
  using assms by (simp add: add_head_def)

lemma translate_start:
  assumes "mp_spatial_dim m \<le> length s" "mp_spatial_dim m \<le> length (start_state m)"
  shows "take (mp_spatial_dim m) (start_state (translate m s)) = take (mp_spatial_dim m) s"
proof -
  let ?n = "mp_spatial_dim m"
  let ?delta = "map2 (-) (take ?n s) (take ?n (start_state m))"
  from assms have len: "length ?delta = ?n" by simp
  have "take ?n (start_state (translate m s)) = map2 (+) (take ?n (start_state m)) ?delta"
    using take_add_head [OF len assms(2)] by (simp add: translate_def Let_def)
  also have "\<dots> = take ?n s"
    using assms by (intro nth_equalityI) simp_all
  finally show ?thesis .
qed

lemma translate_end_length [simp]:
  "length (end_state (translate m s)) = length (end_state m)"
  by (simp add: translate_def Let_def)

lemma successor_chain:
  assumes d: "dims_ok gs start_st" and s: "successor gs p i = Some (mp, n)"
    and len: "spatial_dim (graph gs) \<le> length (state p)"
  shows "take (spatial_dim (graph gs)) (start_state mp) = take (spatial_dim (graph gs)) (state p)"
    "spatial_dim (graph gs) \<le> length (state n)"
proof -
  from s obtain j mp0 where mp0: "get_mp_between_indices (graph gs) i j = Inr mp0"
    "mp = translate mp0 (state p)" and n: "state n = end_state mp"
    by (auto elim!: successor_Some)
  from mp0(1) have "mp0 \<in> set (mps (graph gs))" by (rule get_mp_in_bank)
  with d have m: "mp_spatial_dim mp0 = spatial_dim (graph gs)"
    "spatial_dim (graph gs) \<le> length (start_state mp0)"
    "spatial_dim (graph gs) \<le> length (end_state mp0)"
    by (auto simp: dims_ok_def)
  from translate_start [of mp0 "state p"] m len mp0(2)
  show "take (spatial_dim (graph gs)) (start_state mp) = take (spatial_dim (graph gs)) (state p)"
    by simp
  from n mp0(2) m(3) show "spatial_dim (graph gs) \<le> length (state n)" by simp
qed

lemma walk_chain:
  assumes d: "dims_ok gs start_st"
  shows "walk gs n rows = Some (path, m) \<Longrightarrow> spatial_dim (graph gs) \<le> length (state n) \<Longrightarrow>
    (path \<noteq> [] \<longrightarrow>
       take (spatial_dim (graph gs)) (start_state (hd path)) = take (spatial_dim (graph gs)) (state n) \<and>
       end_state (last path) = state m) \<and>
    (\<forall>i. Suc i < length path \<longrightarrow>
       take (spatial_dim (graph gs)) (end_state (path ! i))
         = take (spatial_dim (graph gs)) (start_state (path ! Suc i)))"
proof (induction rows arbitrary: n path)
  case Nil
  then show ?case by simp
next
  case (Cons i rows)
  let ?sd = "spatial_dim (graph gs)"
  from Cons.prems(1) obtain mp n' path' where
    s: "successor gs n i = Some (mp, n')" and w: "walk gs n' rows = Some (path', m)"
    and p: "path = mp # path'"
    by (auto split: option.splits)
  from successor_chain [OF d s Cons.prems(2)] have
    st: "take ?sd (start_state mp) = take ?sd (state n)" and len: "?sd \<le> length (state n')"
    by simp_all
  from successor_state [OF s] have e: "state n' = end_state mp" .
  note IH = Cons.IH [OF w len]
  have last: "end_state (last path) = state m"
  proof (cases "path' = []")
    case True
    with w walk_length [OF w] have "rows = []" by simp
    with w have "m = n'" by simp
    with True p e show ?thesis by simp
  next
    case False
    with IH p show ?thesis by simp
  qed
  have chain: "take ?sd (end_state (path ! k)) = take ?sd (start_state (path ! Suc k))"
    if "Suc k < length path" for k
  proof (cases k)
    case 0
    with that p have "path' \<noteq> []" by auto
    with IH have "take ?sd (start_state (hd path')) = take ?sd (state n')" by simp
    with 0 p e \<open>path' \<noteq> []\<close> show ?thesis by (simp add: hd_conv_nth)
  next
    case (Suc k')
    with that p have "Suc k' < length path'" by simp
    with IH Suc p show ?thesis by simp
  qed
  from st last chain p show ?case by simp
qed

text \<open>Beyond the position, a translated primitive has the components of the primitive of
  the bank.\<close>

lemma drop_add_head:
  assumes "length delta = n" "n \<le> length v"
  shows "drop n (add_head delta v) = drop n v"
  using assms by (simp add: add_head_def)

lemma successor_bank:
  assumes d: "dims_ok gs start_st" and s: "successor gs p i = Some (mp, n)"
    and len: "spatial_dim (graph gs) \<le> length (state p)"
  shows "\<exists>j mp0. NormIndex (graph gs) (state_index p) = Inr j \<and>
           get_mp_between_indices (graph gs) i j = Inr mp0 \<and>
           drop (spatial_dim (graph gs)) (start_state mp)
             = drop (spatial_dim (graph gs)) (start_state mp0) \<and>
           drop (spatial_dim (graph gs)) (end_state mp)
             = drop (spatial_dim (graph gs)) (end_state mp0)"
proof -
  let ?sd = "spatial_dim (graph gs)"
  from s obtain j mp0 where j: "NormIndex (graph gs) (state_index p) = Inr j"
    and mp0: "get_mp_between_indices (graph gs) i j = Inr mp0" "mp = translate mp0 (state p)"
    by (auto elim!: successor_Some)
  from mp0(1) have "mp0 \<in> set (mps (graph gs))" by (rule get_mp_in_bank)
  with d have m: "mp_spatial_dim mp0 = ?sd" "?sd \<le> length (start_state mp0)"
    "?sd \<le> length (end_state mp0)"
    by (auto simp: dims_ok_def)
  let ?delta = "map2 (-) (take ?sd (state p)) (take ?sd (start_state mp0))"
  from m(2) len have l: "length ?delta = ?sd" by simp
  from mp0(2) m(1) have "start_state mp = add_head ?delta (start_state mp0)"
    "end_state mp = add_head ?delta (end_state mp0)"
    by (simp_all add: translate_def Let_def)
  with drop_add_head [OF l m(2)] drop_add_head [OF l m(3)]
  have "drop ?sd (start_state mp) = drop ?sd (start_state mp0)"
    "drop ?sd (end_state mp) = drop ?sd (end_state mp0)"
    by simp_all
  with j mp0(1) show ?thesis by blast
qed

text \<open>With a bank whose primitives chain, a primitive starts at the state at which the
  primitive before it ends.\<close>

lemma successor_successor_chain:
  assumes d: "dims_ok gs start_st" and pc: "primitives_chain (graph gs)"
    and s: "successor gs p i = Some (mp, n)" and s': "successor gs n i' = Some (mp', n')"
    and len: "spatial_dim (graph gs) \<le> length (state p)"
  shows "end_state mp = start_state mp'"
proof -
  let ?sd = "spatial_dim (graph gs)"
  from successor_chain [OF d s len] have ln: "?sd \<le> length (state n)" by simp
  from successor_chain [OF d s' ln] successor_state [OF s]
  have tk: "take ?sd (start_state mp') = take ?sd (end_state mp)" by simp
  from successor_bank [OF d s len] obtain j mp0 where
    a: "get_mp_between_indices (graph gs) i j = Inr mp0"
      "drop ?sd (end_state mp) = drop ?sd (end_state mp0)"
    by blast
  from successor_bank [OF d s' ln] successor_index [OF s] obtain k mp0' where
    b: "NormIndex (graph gs) i = Inr k" "get_mp_between_indices (graph gs) i' k = Inr mp0'"
      "drop ?sd (start_state mp') = drop ?sd (start_state mp0')"
    by auto
  from pc a(1) b(1,2) have "drop ?sd (end_state mp0) = drop ?sd (start_state mp0')"
    unfolding primitives_chain_def by blast
  with a(2) b(3) have "drop ?sd (start_state mp') = drop ?sd (end_state mp)" by simp
  with tk show ?thesis by (metis append_take_drop_id)
qed

lemma walk_chain_whole:
  assumes d: "dims_ok gs start_st" and pc: "primitives_chain (graph gs)"
  shows "walk gs n rows = Some (path, m) \<Longrightarrow> spatial_dim (graph gs) \<le> length (state n) \<Longrightarrow>
    Suc i < length path \<Longrightarrow> end_state (path ! i) = start_state (path ! Suc i)"
proof (induction rows arbitrary: n path i)
  case Nil
  then show ?case by simp
next
  case (Cons r rows)
  from Cons.prems(1) obtain mp n' path' where
    s: "successor gs n r = Some (mp, n')" and w: "walk gs n' rows = Some (path', m)"
    and p: "path = mp # path'"
    by (auto split: option.splits)
  from successor_chain [OF d s Cons.prems(2)] have len: "spatial_dim (graph gs) \<le> length (state n')"
    by simp
  show ?case
  proof (cases i)
    case 0
    with Cons.prems(3) p have "path' \<noteq> []" by auto
    with w obtain r' rows' where rows: "rows = r' # rows'" by (cases rows) auto
    with w obtain mp' n'' path'' where
      s': "successor gs n' r' = Some (mp', n'')" and p': "path' = mp' # path''"
      by (auto split: option.splits)
    from successor_successor_chain [OF d pc s s' Cons.prems(2)] 0 p p' show ?thesis by simp
  next
    case (Suc i')
    with Cons.prems(3) p have "Suc i' < length path'" by simp
    from Cons.IH [OF w len this] Suc p show ?thesis by simp
  qed
qed

lemma walk_start_whole:
  assumes d: "dims_ok gs start_st" and sf: "start_fits (graph gs) start_st"
    and w: "walk gs (start_node gs start_st) rows = Some (path, m)" and ne: "path \<noteq> []"
  shows "start_state (hd path) = start_st"
proof -
  let ?sd = "spatial_dim (graph gs)"
  let ?s0 = "start_node gs start_st"
  from w ne obtain r rows' where "rows = r # rows'" by (cases rows) auto
  with w obtain mp n' path' where
    s: "successor gs ?s0 r = Some (mp, n')" and p: "path = mp # path'"
    by (auto split: option.splits)
  from d have len: "?sd \<le> length (state ?s0)" by (simp add: dims_ok_def start_node_def)
  from successor_chain [OF d s len] have tk: "take ?sd (start_state mp) = take ?sd start_st"
    by (simp add: start_node_def)
  from successor_bank [OF d s len] obtain j mp0 where
    "NormIndex (graph gs) 0 = Inr j" "get_mp_between_indices (graph gs) r j = Inr mp0"
    "drop ?sd (start_state mp) = drop ?sd (start_state mp0)"
    by (auto simp: start_node_def)
  with sf have "drop ?sd (start_state mp) = drop ?sd start_st"
    unfolding start_fits_def by metis
  with tk have "start_state mp = start_st" by (metis append_take_drop_id)
  with p show ?thesis by simp
qed

section \<open>The returned path is a cheapest one\<close>

lemma successor_same_place:
  assumes "successor gs m0 i = Some (mp, m)" "state p = state m0"
    "NormIndex (graph gs) (state_index p) = NormIndex (graph gs) (state_index m0)"
  shows "successor gs p i = Some (mp, m\<lparr>motion_cost := motion_cost p + cost mp\<rparr>)"
proof -
  from assms(1) obtain j mp0 where j: "NormIndex (graph gs) (state_index m0) = Inr j"
    and mp0: "get_mp_between_indices (graph gs) i j = Inr mp0" "mp = translate mp0 (state m0)"
      "is_mp_collision_free gs mp"
    and m: "m = \<lparr>state_index = i, state = end_state mp, motion_cost = motion_cost m0 + cost mp,
          heuristic_cost = heuristic gs (end_state mp)\<rparr>"
    by (rule successor_Some)
  let ?n = "m\<lparr>motion_cost := motion_cost p + cost mp\<rparr>"
  from mp0 assms(2) have "expand_body gs [] p j i = Inr (Some \<lparr>state_index = i,
          state = end_state (translate mp0 (state p)),
          motion_cost = motion_cost p + cost mp0,
          heuristic_cost = heuristic gs (end_state (translate mp0 (state p)))\<rparr>)"
    by (intro expand_body_intro) simp_all
  with mp0(2) assms(2) m have b: "expand_body gs [] p j i = Inr (Some ?n)" by simp
  from j assms(3) have j': "NormIndex (graph gs) (state_index p) = Inr j" by simp
  from m have "state_index ?n = i" by simp
  with j' mp0(1,2) assms(2) have "GetPrimitiveBetween gs p ?n = Inr mp"
    by (simp add: GetPrimitiveBetween_def)
  with j' b show ?thesis by (simp add: successor_def)
qed

lemma covered_mono:
  assumes "covered s n" "vkeys s \<subseteq> vkeys s'" "set (pq s) \<subseteq> set (pq s')"
  shows "covered s' n"
  using assms unfolding covered_def by blast

lemma covered_pop:
  assumes "covered s n" "vkeys s \<subseteq> vkeys s'" "pq s' = pq_pop (pq s)"
    "quantize (state (pq_top (pq s))) \<in> vkeys s'"
  shows "covered s' n"
proof (cases "quantize (state n) \<in> vkeys s")
  case True
  with assms(2) show ?thesis unfolding covered_def by blast
next
  case False
  with assms(1) obtain q where q: "q \<in> set (pq s)" "quantize (state q) = quantize (state n)"
    "motion_cost q \<le> motion_cost n"
    unfolding covered_def by blast
  show ?thesis
  proof (cases "q = pq_top (pq s)")
    case True
    with q(2) assms(4) show ?thesis unfolding covered_def by auto
  next
    case False
    with q(1) have "q \<in> set (pq_pop (pq s))" by (rule pq_pop_keeps)
    with q(2,3) assms(3) show ?thesis unfolding covered_def by auto
  qed
qed

text \<open>Every walk from the start ends in a visited state, or the queue holds an entry whose
  total cost is at most the cost of the walk plus the heuristic at its end.\<close>

lemma frontier:
  assumes ok: "lattice_ok gs s0" and cd: "column_determined gs s0"
    and cons: "consistent gs s0 e d"
    and inv: "sound_inv gs s0 e d s" and opt: "opt_inv gs s0 s"
    and w: "walk gs s0 rows = Some (path, m)"
  shows "quantize (state m) \<in> vkeys s \<or>
         (\<exists>q \<in> set (pq s). total_cost q \<le> motion_cost m + heuristic gs (state m))"
  using w
proof (induction rows arbitrary: path m rule: rev_induct)
  case Nil
  then have m: "m = s0" by simp
  from opt have "covered s s0" by (simp add: opt_inv_def)
  then show ?case
  proof (cases "quantize (state s0) \<in> vkeys s")
    case True
    with m show ?thesis by simp
  next
    case False
    with \<open>covered s s0\<close> obtain q where q: "q \<in> set (pq s)"
      "quantize (state q) = quantize (state s0)" "motion_cost q \<le> motion_cost s0"
      unfolding covered_def by blast
    from inv q(1) have rq: "reach gs s0 q" by (auto simp: sound_inv_def inv_pq_def)
    with ok q(2) have "state q = state s0"
      unfolding lattice_ok_def quantization_exact_def by (metis reach_start)
    moreover from rq ok have "heuristic_cost q = heuristic gs (state q)"
      unfolding lattice_ok_def by (auto intro: reach_heuristic)
    ultimately have "total_cost q \<le> motion_cost s0 + heuristic gs (state s0)"
      using q(3) by (simp add: total_cost_def)
    with q(1) m show ?thesis by auto
  qed
next
  case (snoc i rows)
  from snoc.prems obtain path0 m0 mp where
    w0: "walk gs s0 rows = Some (path0, m0)" and s: "successor gs m0 i = Some (mp, m)"
    by (auto simp: walk_append split: option.splits)
  from w0 have r0: "reach gs s0 m0" unfolding reach_def by blast
  from r0 s have rm: "reach gs s0 m" by (rule reach_successor)
  from snoc.IH [OF w0] show ?case
  proof
    assume v: "quantize (state m0) \<in> vkeys s"
    from inv have vi: "visit_inv s" and ie: "inv_exp gs s0 e d s" and ipq: "inv_pq gs s0 s"
      by (simp_all add: sound_inv_def)
    from visit_inv_keys [OF vi v] obtain p where
      p: "p \<in> set (expanded s)" "quantize (state p) = quantize (state m0)"
      by blast
    from ie p(1) have rp: "reach gs s0 p" unfolding inv_exp_def by (auto intro: trace_reach)
    with ok r0 p(2) have st: "state p = state m0"
      unfolding lattice_ok_def quantization_exact_def by metis
    with cd rp r0 have "NormIndex (graph gs) (state_index p) = NormIndex (graph gs) (state_index m0)"
      unfolding column_determined_def by blast
    note same = st this
    from opt p w0 have le: "motion_cost p \<le> motion_cost m0"
      unfolding opt_inv_def inv_closed_def by metis
    let ?n = "m\<lparr>motion_cost := motion_cost p + cost mp\<rparr>"
    from successor_same_place [OF s same] have sp: "successor gs p i = Some (mp, ?n)" .
    with opt p(1) have "covered s ?n"
      unfolding opt_inv_def inv_frontier_def by blast
    then show ?thesis
    proof (cases "quantize (state m) \<in> vkeys s")
      case True
      then show ?thesis by simp
    next
      case False
      with \<open>covered s ?n\<close> obtain q where q: "q \<in> set (pq s)"
        "quantize (state q) = quantize (state m)" "motion_cost q \<le> motion_cost p + cost mp"
        unfolding covered_def by auto
      from ipq q(1) have rq: "reach gs s0 q" by (auto simp: inv_pq_def)
      with ok rm q(2) have "state q = state m"
        unfolding lattice_ok_def quantization_exact_def by metis
      moreover from rq ok have "heuristic_cost q = heuristic gs (state q)"
        unfolding lattice_ok_def by (auto intro: reach_heuristic)
      moreover from successor_cost [OF s] have "motion_cost m = motion_cost m0 + cost mp" .
      ultimately have "total_cost q \<le> motion_cost m + heuristic gs (state m)"
        using q(3) le by (simp add: total_cost_def)
      with q(1) show ?thesis by auto
    qed
  next
    assume "\<exists>q \<in> set (pq s). total_cost q \<le> motion_cost m0 + heuristic gs (state m0)"
    then obtain q where q: "q \<in> set (pq s)"
      "total_cost q \<le> motion_cost m0 + heuristic gs (state m0)"
      by blast
    from cons r0 s have "heuristic gs (state m0) \<le> cost mp + heuristic gs (state m)"
      unfolding consistent_def by blast
    with q(2) successor_cost [OF s]
    have "total_cost q \<le> motion_cost m + heuristic gs (state m)" by simp
    with q(1) show ?thesis by auto
  qed
qed

text \<open>The top node, when its state is not visited, has the least cost among the walks to
  its state.\<close>

lemma top_closed:
  assumes ok: "lattice_ok gs s0" and cd: "column_determined gs s0"
    and cons: "consistent gs s0 e d"
    and inv: "sound_inv gs s0 e d s" and opt: "opt_inv gs s0 s"
    and ne: "pq s \<noteq> []" and fresh: "quantize (state (pq_top (pq s))) \<notin> vkeys s"
    and w: "walk gs s0 rows = Some (path, m)"
    and k: "quantize (state m) = quantize (state (pq_top (pq s)))"
  shows "motion_cost (pq_top (pq s)) \<le> motion_cost m"
proof -
  let ?c = "pq_top (pq s)"
  from frontier [OF ok cd cons inv opt w] k fresh obtain q where
    q: "q \<in> set (pq s)" "total_cost q \<le> motion_cost m + heuristic gs (state m)"
    by auto
  from q(1) have "total_cost ?c \<le> total_cost q" by (rule pq_top_least)
  moreover from inv pq_top_in [OF ne] have rc: "reach gs s0 ?c"
    by (auto simp: sound_inv_def inv_pq_def)
  from w have rm: "reach gs s0 m" unfolding reach_def by blast
  from ok rc rm k have "state m = state ?c"
    unfolding lattice_ok_def quantization_exact_def by metis
  moreover from rc ok have "heuristic_cost ?c = heuristic gs (state ?c)"
    unfolding lattice_ok_def by (auto intro: reach_heuristic)
  ultimately show ?thesis using q(2) by (simp add: total_cost_def)
qed

lemma opt_inv_popped:
  assumes opt: "opt_inv gs s0 s" and stale: "quantize (state (pq_top (pq s))) \<in> vkeys s"
  shows "opt_inv gs s0 (popped hs s)"
proof -
  have c: "covered (popped hs s) n" if "covered s n" for n
    by (rule covered_pop [OF that]) (simp_all add: stale)
  from opt c show ?thesis
    by (auto simp: opt_inv_def inv_closed_def inv_frontier_def)
qed

lemma opt_inv_visiting:
  assumes ok: "lattice_ok gs s0" and cd: "column_determined gs s0"
    and cons: "consistent gs s0 e d"
    and inv: "sound_inv gs s0 e d s" and opt: "opt_inv gs s0 s"
    and ne: "pq s \<noteq> []" and fresh: "quantize (state (pq_top (pq s))) \<notin> vkeys s"
  shows "inv_closed gs s0 (visiting hs s)" "inv_frontier gs (set (expanded s)) (visiting hs s)"
    "covered (visiting hs s) s0"
proof -
  have c: "covered (visiting hs s) n" if "covered s n" for n
    by (rule covered_pop [OF that]) auto
  from opt c show "inv_frontier gs (set (expanded s)) (visiting hs s)"
    "covered (visiting hs s) s0"
    by (auto simp: opt_inv_def inv_frontier_def)
  show "inv_closed gs s0 (visiting hs s)"
    unfolding inv_closed_def
  proof (intro ballI allI impI)
    fix p rows path m
    assume p: "p \<in> set (expanded (visiting hs s))"
      and w: "walk gs s0 rows = Some (path, m) \<and> quantize (state m) = quantize (state p)"
    show "motion_cost p \<le> motion_cost m"
    proof (cases "p = pq_top (pq s)")
      case True
      with top_closed [OF ok cd cons inv opt ne fresh, of rows path m] w show ?thesis by simp
    next
      case False
      with p have "p \<in> set (expanded s)" by simp
      with opt w show ?thesis unfolding opt_inv_def inv_closed_def by blast
    qed
  qed
qed

lemma relax_pq_mono: "set (pq s) \<subseteq> set (pq (relax hs c s n))"
  by (auto simp: relax_eq)

lemma foldl_relax_pq_mono: "set (pq s) \<subseteq> set (pq (foldl (relax hs c) s ns))"
proof (induction ns arbitrary: s)
  case Nil
  show ?case by simp
next
  case (Cons n ns)
  from relax_pq_mono [of s hs c n] Cons [of "relax hs c s n"] show ?case by auto
qed

lemma covered_relax: "covered s m \<Longrightarrow> covered (relax hs c s n) m"
  by (erule covered_mono) (simp_all add: relax_pq_mono)

lemma covered_foldl_relax: "covered s m \<Longrightarrow> covered (foldl (relax hs c) s ns) m"
  by (erule covered_mono) (simp_all add: foldl_relax_pq_mono)

text \<open>After the comparison with the history, the queue holds an entry for the state of the
  successor that costs no more than the successor.\<close>

lemma relax_covers:
  assumes ih: "inv_hist gs s"
  shows "covered (relax hs c s n) n"
proof (cases "less_ecost (motion_cost n)
             (case history s (quantize (state n)) of None \<Rightarrow> PInf | Some e \<Rightarrow> best_cost e)")
  case True
  from relax_less(1) [OF True, of hs c] show ?thesis by (auto simp: covered_def)
next
  case False
  then obtain en where en: "history s (quantize (state n)) = Some en"
    by (cases "history s (quantize (state n))") auto
  from ih en have "entry_ok gs s (quantize (state n)) en" by (rule inv_histD)
  then obtain mp q where q: "quantize (state q) = quantize (state n)"
    "best_cost en = Fin (motion_cost q)" and wk: "writer_kept s (quantize (state n)) q"
    by (rule entry_okE)
  from False en q(2) have le: "motion_cost q \<le> motion_cost n" by simp
  have "covered s n"
  proof (cases "quantize (state n) \<in> vkeys s")
    case True
    then show ?thesis by (simp add: covered_def)
  next
    case nv: False
    with wk have "q \<in> set (pq s)" by (simp add: writer_kept_def)
    with q(1) le show ?thesis by (auto simp: covered_def)
  qed
  with False show ?thesis by (simp add: relax_not_less)
qed

lemma foldl_relax_covers:
  assumes ok: "lattice_ok gs s0" and inv: "sound_inv gs s0 e d s"
    and ns0: "s0 \<notin> set (pq s)" and cin: "c \<in> set (expanded s)"
    and suc: "\<And>n. n \<in> set ns \<Longrightarrow>
        (\<exists>mp. successor gs c (state_index n) = Some (mp, n)) \<and> quantize (state n) \<notin> vkeys s"
    and m: "m \<in> set ns"
  shows "covered (foldl (relax hs c) s ns) m"
  using inv ns0 cin suc m
proof (induction ns arbitrary: s)
  case Nil
  then show ?case by simp
next
  case (Cons n ns)
  from Cons.prems(4) [of n] obtain mp where
    "successor gs c (state_index n) = Some (mp, n)" "quantize (state n) \<notin> vkeys s"
    by auto
  from sound_inv_relax [OF ok Cons.prems(1,2,3) this, of hs]
  have a: "sound_inv gs s0 e d (relax hs c s n)" "s0 \<notin> set (pq (relax hs c s n))"
    by simp_all
  show ?case
  proof (cases "m \<in> set ns")
    case True
    have "covered (foldl (relax hs c) (relax hs c s n) ns) m"
    proof (rule Cons.IH [OF a _ _ True])
      from Cons.prems(3) show "c \<in> set (expanded (relax hs c s n))" by simp
    next
      fix m' assume "m' \<in> set ns"
      with Cons.prems(4) [of m']
      show "(\<exists>mp. successor gs c (state_index m') = Some (mp, m')) \<and>
          quantize (state m') \<notin> vkeys (relax hs c s n)"
        by simp
    qed
    then show ?thesis by simp
  next
    case False
    with Cons.prems(5) have "m = n" by simp
    moreover from Cons.prems(1) have "inv_hist gs s" by (simp add: sound_inv_def)
    then have "covered (relax hs c s n) n" by (rule relax_covers)
    ultimately show ?thesis by (simp add: covered_foldl_relax)
  qed
qed

text \<open>An expansion emits every successor whose state is not visited.\<close>

lemma expand_rows_complete:
  assumes "expand_rows gs vis p j rows = Inr ns" "i \<in> set rows"
    "expand_body gs vis p j i = Inr (Some n)"
  shows "n \<in> set ns"
proof -
  from assms(1) have "ns = concat (map (body_nodes gs vis p j) rows)"
    by (simp add: expand_rows_eq split: if_splits)
  moreover from assms(3) have "body_nodes gs vis p j i = [n]" by (simp add: body_nodes_def)
  ultimately show ?thesis using assms(2) by (auto intro!: bexI [of _ i])
qed

lemma expand_call_complete:
  assumes ex: "expand_call gs hs par s = Inr ns" and sch: "schedules_ok gs hs par"
    and suc: "successor gs (pq_top (pq s)) i = Some (mp, n)"
    and nv: "\<not> visited_find (visited_states (visiting hs s)) (state n)"
  shows "n \<in> set ns"
proof -
  let ?c = "pq_top (pq s)"
  let ?vis = "visited_states (visiting hs s)"
  from suc obtain j mp0 where j: "NormIndex (graph gs) (state_index ?c) = Inr j"
    and mp0: "get_mp_between_indices (graph gs) i j = Inr mp0" "mp = translate mp0 (state ?c)"
      "is_mp_collision_free gs mp"
    and n: "n = \<lparr>state_index = i, state = end_state mp, motion_cost = motion_cost ?c + cost mp,
          heuristic_cost = heuristic gs (end_state mp)\<rparr>"
    by (rule successor_Some)
  from mp0 nv n have "expand_body gs ?vis ?c j i = Inr (Some \<lparr>state_index = i,
          state = end_state (translate mp0 (state ?c)),
          motion_cost = motion_cost ?c + cost mp0,
          heuristic_cost = heuristic gs (end_state (translate mp0 (state ?c)))\<rparr>)"
    by (intro expand_body_intro) simp_all
  with mp0(2) n have b: "expand_body gs ?vis ?c j i = Inr (Some n)" by simp
  from mp0(1) have i: "i < edges_rows (graph gs)"
    by (auto simp: get_mp_between_indices_def edges_at_def edges_rows_def
        split: sum.splits if_splits)
  show ?thesis
  proof (cases par)
    case False
    with ex j have "expand_rows gs ?vis ?c j [0 ..< edges_rows (graph gs)] = Inr ns"
      by (simp add: expand_call_def Expand_def)
    from expand_rows_complete [OF this _ b] i show ?thesis by simp
  next
    case True
    let ?sch = "sched hs (length (expanded s))"
    from True ex j have r: "expand_rows gs ?vis ?c j (schedule_rows ?sch) = Inr ns"
      by (simp add: expand_call_def ExpandPar_def)
    from True sch have "mset (schedule_rows ?sch) = mset [0 ..< edges_rows (graph gs)]"
      by (simp add: schedules_ok_def valid_schedule_def)
    then have "set (schedule_rows ?sch) = set [0 ..< edges_rows (graph gs)]"
      by (rule mset_eq_setD)
    with i have "i \<in> set (schedule_rows ?sch)" by simp
    from expand_rows_complete [OF r this b] show ?thesis .
  qed
qed

lemma opt_inv_cong:
  assumes "pq t = pq s" "expanded t = expanded s" "visited_states t = visited_states s"
  shows "opt_inv gs s0 t = opt_inv gs s0 s"
  using assms
  by (simp add: opt_inv_def inv_closed_def inv_frontier_def covered_def vkeys_def)

text \<open>The body of the loop keeps the second invariant.\<close>

lemma opt_inv_body:
  assumes ok: "lattice_ok gs s0" and cd: "column_determined gs s0"
    and cons: "consistent gs s0 e d"
    and sch: "schedules_ok gs hs par"
    and inv: "sound_inv gs s0 e d s" and opt: "opt_inv gs s0 s" and ne: "pq s \<noteq> []"
    and body: "search_body gs hs e d par k s = Inr s'"
  shows "opt_inv gs s0 s'"
  using body
proof (cases rule: search_body_cases)
  case goal
  then show ?thesis by simp
next
  case stale
  with opt_inv_popped [OF opt, of hs] show ?thesis by (simp add: visited_find_vkeys)
next
  case (fault f)
  then show ?thesis by simp
next
  case (expand ns)
  let ?c = "pq_top (pq s)"
  let ?s3 = "add_timing hs ''astar_expand'' (visiting hs s)"
  let ?f = "foldl (relax hs ?c) ?s3 ns"
  from expand(2) have fresh: "quantize (state ?c) \<notin> vkeys s" by (simp add: visited_find_vkeys)
  note v = opt_inv_visiting [OF ok cd cons inv opt ne fresh, of hs]
  from expand(1) have sv: "sound_inv gs s0 e d (visiting hs s)"
    by (intro sound_inv_visiting [OF ok inv ne fresh])
  then have s3: "sound_inv gs s0 e d ?s3"
    by (simp add: sound_inv_cong [of ?s3 "visiting hs s"])
  from inv have "inv_start s0 s" by (simp add: sound_inv_def)
  from start_not_top_after [OF this ne] have ns0: "s0 \<notin> set (pq ?s3)" by simp
  have cin: "?c \<in> set (expanded ?s3)" by simp
  have mem: "(\<exists>mp. successor gs ?c (state_index n) = Some (mp, n)) \<and>
        quantize (state n) \<notin> vkeys ?s3" if "n \<in> set ns" for n
    using expand_call_member [OF expand(3) that] by (simp add: visited_find_def vkeys_def)
  have up: "covered ?f n" if "covered (visiting hs s) n" for n
  proof -
    from that have "covered ?s3 n" by (rule covered_mono) simp_all
    then show ?thesis by (rule covered_foldl_relax)
  qed
  have 1: "inv_closed gs s0 ?f"
    using v(1) by (simp add: inv_closed_def)
  have 2: "inv_frontier gs (set (expanded ?f)) ?f"
    unfolding inv_frontier_def
  proof (intro ballI allI impI)
    fix p i mp n
    assume p: "p \<in> set (expanded ?f)" and s: "successor gs p i = Some (mp, n)"
    show "covered ?f n"
    proof (cases "p = ?c")
      case False
      with p have "p \<in> set (expanded s)" by simp
      with v(2) s have "covered (visiting hs s) n" unfolding inv_frontier_def by blast
      then show ?thesis by (rule up)
    next
      case True
      show ?thesis
      proof (cases "quantize (state n) \<in> vkeys ?f")
        case True
        then show ?thesis by (simp add: covered_def)
      next
        case False
        then have "\<not> visited_find (visited_states (visiting hs s)) (state n)"
          by (simp add: visited_find_def vkeys_def)
        with expand(3) sch s True have "n \<in> set ns"
          by (intro expand_call_complete [where i = i and mp = mp]) simp_all
        with ok s3 ns0 cin mem show ?thesis by (rule foldl_relax_covers)
      qed
    qed
  qed
  from v(3) have 3: "covered ?f s0" by (rule up)
  from 1 2 3 expand(4) show ?thesis by (simp add: opt_inv_def)
qed

lemma goal_fresh:
  assumes ok: "lattice_ok gs s0" and inv: "sound_inv gs s0 e d s"
    and r: "reach gs s0 t"
    and goal: "state_pos_within (state t) e (spatial_dim (graph gs)) d"
  shows "quantize (state t) \<notin> vkeys s"
proof
  assume "quantize (state t) \<in> vkeys s"
  moreover from inv have vi: "visit_inv s" and ie: "inv_exp gs s0 e d s"
    by (simp_all add: sound_inv_def)
  ultimately obtain p where p: "p \<in> set (expanded s)" "quantize (state p) = quantize (state t)"
    using visit_inv_keys by blast
  from ie p(1) have rp: "reach gs s0 p"
    and ng: "\<not> state_pos_within (state p) e (spatial_dim (graph gs)) d"
    unfolding inv_exp_def by (auto intro: trace_reach)
  with ok r p(2) have "state p = state t"
    unfolding lattice_ok_def quantization_exact_def by metis
  with ng goal show False by simp
qed

text \<open>Both invariants hold where a run of the loop ends.\<close>

lemma both_inv_init:
  "sound_inv gs s0 e d (init_state members s0) \<and> opt_inv gs s0 (init_state members s0)"
  by (simp add: sound_inv_init)
    (simp add: opt_inv_def inv_closed_def inv_frontier_def covered_def init_state_def)

lemma both_inv_body:
  assumes "lattice_ok gs s0" "column_determined gs s0" "consistent gs s0 e d"
    "schedules_ok gs hs par"
    "sound_inv gs s0 e d t \<and> opt_inv gs s0 t" "pq t \<noteq> []"
    "search_body gs hs e d par k t = Inr t'"
  shows "sound_inv gs s0 e d t' \<and> opt_inv gs s0 t'"
  using assms by (auto intro: sound_inv_body opt_inv_body)

text \<open>A walk from the start node to a node that passes the goal test has its end in the
  queue, or a queued node before it: the queue is not empty.\<close>

lemma goal_walk_queue:
  assumes ok: "lattice_ok gs s0" and cd: "column_determined gs s0"
    and cons: "consistent gs s0 e d"
    and inv: "sound_inv gs s0 e d s" and opt: "opt_inv gs s0 s"
    and w: "walk gs s0 rows = Some (path, t)"
    and goal: "state_pos_within (state t) e (spatial_dim (graph gs)) d"
  shows "\<exists>q \<in> set (pq s). total_cost q \<le> motion_cost t + heuristic gs (state t)"
proof -
  from w have rt: "reach gs s0 t" unfolding reach_def by blast
  from goal_fresh [OF ok inv rt goal] frontier [OF ok cd cons inv opt w] show ?thesis by auto
qed

text \<open>When the call returns no primitive and leaves an empty queue, it has taken the early
  exit, or no walk from the start node ends at a node that passes the goal test.\<close>

lemma Search_drained:
  assumes qe: "quantization_exact gs (start_node gs start_st)"
    and cd: "column_determined gs (start_node gs start_st)"
    and cons: "consistent gs (start_node gs start_st) end_st d"
    and sch: "schedules_ok gs hs par"
    and res: "Search gs hs ok members start_st end_st d par = (Inr [], s')" "pq s' = []"
    and w: "walk gs (start_node gs start_st) rows = Some (path', t)"
    and goal: "state_pos_within (state t) end_st (spatial_dim (graph gs)) d"
  shows "state_pos_within start_st end_st (spatial_dim (graph gs)) d"
proof (rule ccontr)
  let ?s0 = "start_node gs start_st"
  let ?init = "init_state members ?s0"
  let ?I = "\<lambda>s. sound_inv gs ?s0 end_st d s \<and> opt_inv gs ?s0 s"
  assume ne: "\<not> state_pos_within start_st end_st (spatial_dim (graph gs)) d"
  from qe have ok: "lattice_ok gs ?s0" by (rule lattice_okI)
  note eq = Search_eq_loop [OF ne, of hs _ members par]
  from res(1) eq have e1: "search_loop gs hs end_st d par ok ?init = (Inr [], s')" by simp
  have "\<exists>t. ?I t \<and>
           (search_loop gs hs end_st d par ok ?init = (Inr [], t) \<or>
            (\<exists>k. pq t \<noteq> [] \<and>
               search_body gs hs end_st d par k t = Inl (search_loop gs hs end_st d par ok ?init)))"
  proof (rule search_loop_exit [where I = ?I])
    show "?I ?init" by (rule both_inv_init)
  next
    fix k t t'
    assume "?I t" "pq t \<noteq> []" "search_body gs hs end_st d par k t = Inr t'"
    with ok cd cons sch show "?I t'" by (rule both_inv_body)
  qed
  then obtain u where u: "?I u"
    and c: "search_loop gs hs end_st d par ok ?init = (Inr [], u) \<or>
            (\<exists>k. pq u \<noteq> [] \<and>
               search_body gs hs end_st d par k u = Inl (search_loop gs hs end_st d par ok ?init))"
    by blast
  have "u = s'"
  proof -
    from c show ?thesis
    proof
      assume "search_loop gs hs end_st d par ok ?init = (Inr [], u)"
      with e1 show ?thesis by simp
    next
      assume "\<exists>k. pq u \<noteq> [] \<and>
               search_body gs hs end_st d par k u = Inl (search_loop gs hs end_st d par ok ?init)"
      with e1 obtain k where k: "pq u \<noteq> []" "search_body gs hs end_st d par k u = Inl (Inr [], s')"
        by auto
      from k(2) have "s' = u"
        by (cases rule: search_body_cases) simp_all
      then show ?thesis by simp
    qed
  qed
  with u have inv: "sound_inv gs ?s0 end_st d s'" and opt: "opt_inv gs ?s0 s'" by simp_all
  from goal_walk_queue [OF ok cd cons inv opt w goal] res(2) show False by simp
qed

lemma Search_final_inv:
  assumes init: "I (init_state members (start_node gs start_st))"
    and step: "\<And>k t t'. I t \<Longrightarrow> pq t \<noteq> [] \<Longrightarrow> search_body gs hs end_st d par k t = Inr t'
        \<Longrightarrow> I t'"
    and res: "Search gs hs ok members start_st end_st d par = (Inr path, s')" "path \<noteq> []"
  shows "I s'"
proof -
  let ?init = "init_state members (start_node gs start_st)"
  from res have ne: "\<not> state_pos_within start_st end_st (spatial_dim (graph gs)) d"
    using Search_early [of start_st end_st gs d hs ok members par] by auto
  note eq = Search_eq_loop [OF ne, of hs _ members par]
  from res eq have e1: "search_loop gs hs end_st d par ok ?init = (Inr path, s')" by simp
  then have r1: "fst (search_loop gs hs end_st d par ok ?init) = Inr path" by simp
  have "\<exists>t k. I t \<and> pq t \<noteq> [] \<and>
           state_pos_within (state (pq_top (pq t))) end_st (spatial_dim (graph gs)) d \<and>
           search_loop gs hs end_st d par ok ?init
             = (RecoverPath gs k (history t) (pq_top (pq t)), t) \<and>
           search_loop gs hs end_st d par (Suc ok) ?init
             = (RecoverPath gs (Suc k) (history t) (pq_top (pq t)), t)"
    by (rule search_loop_goal_exit [where I = I, OF init _ r1 res(2)]) (blast intro: step)
  then obtain t k where "I t"
    "search_loop gs hs end_st d par ok ?init = (RecoverPath gs k (history t) (pq_top (pq t)), t)"
    by blast
  with e1 show ?thesis by (metis Pair_inject)
qed

text \<open>With a consistent heuristic, a path that is returned and not empty costs no more
  than any walk from the start node to a node that passes the goal test.\<close>

lemma Search_optimal:
  assumes qe: "quantization_exact gs (start_node gs start_st)"
    and cd: "column_determined gs (start_node gs start_st)" and pc: "positive_costs gs"
    and cons: "consistent gs (start_node gs start_st) end_st d"
    and sch: "schedules_ok gs hs par"
    and res: "Search gs hs ok members start_st end_st d par = (Inr path, s')" "path \<noteq> []"
    and nc: "fst (Search gs hs (Suc ok) members start_st end_st d par) = Inr path"
    and w: "walk gs (start_node gs start_st) rows = Some (path', t)"
    and goal: "state_pos_within (state t) end_st (spatial_dim (graph gs)) d"
  shows "path_cost path \<le> path_cost path'"
proof -
  let ?s0 = "start_node gs start_st"
  let ?c = "pq_top (pq s')"
  from qe have ok: "lattice_ok gs ?s0" by (rule lattice_okI)
  from Search_sound [OF qe pc res nc] obtain rows0 where
    w0: "walk gs ?s0 rows0 = Some (path, ?c)"
    and gc: "state_pos_within (state ?c) end_st (spatial_dim (graph gs)) d"
    and inv: "sound_inv gs ?s0 end_st d s'" and ne: "pq s' \<noteq> []"
    by blast
  have "sound_inv gs ?s0 end_st d s' \<and> opt_inv gs ?s0 s'"
  proof (rule Search_final_inv [where I = "\<lambda>s. sound_inv gs ?s0 end_st d s \<and> opt_inv gs ?s0 s",
        OF _ _ res])
    show "sound_inv gs ?s0 end_st d (init_state members ?s0) \<and>
        opt_inv gs ?s0 (init_state members ?s0)"
      by (rule both_inv_init)
  next
    fix k t t'
    assume "sound_inv gs ?s0 end_st d t \<and> opt_inv gs ?s0 t" "pq t \<noteq> []"
      "search_body gs hs end_st d par k t = Inr t'"
    with ok cd cons sch show "sound_inv gs ?s0 end_st d t' \<and> opt_inv gs ?s0 t'"
      by (rule both_inv_body)
  qed
  then have opt: "opt_inv gs ?s0 s'" by simp
  from w have rt: "reach gs ?s0 t" unfolding reach_def by blast
  from w0 have rc: "reach gs ?s0 ?c" unfolding reach_def by blast
  from goal_walk_queue [OF ok cd cons inv opt w goal]
  obtain q where q: "q \<in> set (pq s')" "total_cost q \<le> motion_cost t + heuristic gs (state t)"
    by auto
  from q(1) have "total_cost ?c \<le> total_cost q" by (rule pq_top_least)
  moreover from cons rt goal have "heuristic gs (state t) = 0"
    unfolding consistent_def by blast
  moreover from cons rc gc have "heuristic gs (state ?c) = 0"
    unfolding consistent_def by blast
  moreover from rc ok have "heuristic_cost ?c = heuristic gs (state ?c)"
    unfolding lattice_ok_def by (auto intro: reach_heuristic)
  ultimately have "motion_cost ?c \<le> motion_cost t"
    using q(2) by (simp add: total_cost_def)
  with walk_cost [OF w0] walk_cost [OF w] show ?thesis
    by (simp add: start_node_def)
qed

text \<open>The result of a call that was not cut short by the shutdown: whenever a walk from the
  start node ends at a node that passes the goal test, the path returned is the list of
  primitives of such a walk, and costs no more.\<close>

lemma Search_least:
  assumes qe: "quantization_exact gs (start_node gs start_st)"
    and cd: "column_determined gs (start_node gs start_st)" and pc: "positive_costs gs"
    and cons: "consistent gs (start_node gs start_st) end_st d"
    and sch: "schedules_ok gs hs par"
    and res: "Search gs hs ok members start_st end_st d par = (Inr path, s')"
    and dr: "path = [] \<longrightarrow> pq s' = []"
    and nc: "fst (Search gs hs (Suc ok) members start_st end_st d par) = Inr path"
    and w: "walk gs (start_node gs start_st) rows = Some (path', t)"
    and goal: "state_pos_within (state t) end_st (spatial_dim (graph gs)) d"
  shows "\<exists>rows0 t0. walk gs (start_node gs start_st) rows0 = Some (path, t0) \<and>
           state_pos_within (state t0) end_st (spatial_dim (graph gs)) d"
    "path_cost path \<le> path_cost path'"
proof -
  let ?s0 = "start_node gs start_st"
  have "(\<exists>rows0 t0. walk gs ?s0 rows0 = Some (path, t0) \<and>
           state_pos_within (state t0) end_st (spatial_dim (graph gs)) d) \<and>
        path_cost path \<le> path_cost path'"
  proof (cases "path = []")
    case True
    with res dr have r: "Search gs hs ok members start_st end_st d par = (Inr [], s')"
      "pq s' = []"
      by simp_all
    from Search_drained [OF qe cd cons sch r w goal]
    have "state_pos_within (state ?s0) end_st (spatial_dim (graph gs)) d"
      by (simp add: start_node_def)
    moreover have "walk gs ?s0 [] = Some ([], ?s0)" by simp
    ultimately have "\<exists>rows0 t0. walk gs ?s0 rows0 = Some ([], t0) \<and>
           state_pos_within (state t0) end_st (spatial_dim (graph gs)) d"
      by blast
    with True path_cost_nonneg(1) [OF pc w] show ?thesis by (simp add: path_cost_def)
  next
    case False
    from Search_sound(1,2) [OF qe pc res False nc]
      Search_optimal [OF qe cd pc cons sch res False nc w goal]
    show ?thesis by blast
  qed
  then show "\<exists>rows0 t0. walk gs ?s0 rows0 = Some (path, t0) \<and>
           state_pos_within (state t0) end_st (spatial_dim (graph gs)) d"
    "path_cost path \<le> path_cost path'"
    by simp_all
qed

section \<open>The example graphs\<close>

subsection \<open>The graph with two routes\<close>

lemma reach_induct [consumes 1, case_names start step]:
  assumes "reach gs s0 n" "P s0"
    "\<And>p i mp n. reach gs s0 p \<Longrightarrow> P p \<Longrightarrow> successor gs p i = Some (mp, n) \<Longrightarrow> P n"
  shows "P n"
proof -
  from assms(1) obtain rows path where "walk gs s0 rows = Some (path, n)"
    unfolding reach_def by blast
  then show ?thesis
  proof (induction rows arbitrary: path n rule: rev_induct)
    case Nil
    with assms(2) show ?case by simp
  next
    case (snoc i rows)
    from snoc.prems obtain path0 m mp where
      w: "walk gs s0 rows = Some (path0, m)" and s: "successor gs m i = Some (mp, n)"
      by (auto simp: walk_append split: option.splits)
    from w have "reach gs s0 m" unfolding reach_def by blast
    with snoc.IH [OF w] s show ?case by (rule assms(3) [rotated])
  qed
qed

lemma ex1_edges:
  assumes "get_mp_between_indices ex1_graph i j = Inr mp0"
  shows "(i = 1 \<and> j = 0 \<and> mp0 = ex_mp 0 1 [0] [1]) \<or> (i = 2 \<and> j = 0 \<and> mp0 = ex_mp 1 3 [0] [2]) \<or>
         (i = 2 \<and> j = 1 \<and> mp0 = ex_mp 2 1 [1] [2]) \<or> (i = 3 \<and> j = 2 \<and> mp0 = ex_mp 3 4 [2] [3])"
proof -
  from assms have "i < 4"
    by (auto simp: get_mp_between_indices_def edges_at_def ex1_graph_def ex_graph_def
        split: sum.splits if_splits)
  then consider "i = 0" | "i = 1" | "i = 2" | "i = 3" by linarith
  then have i: "i < 4 \<and> j < 4 \<and> length (edges ex1_graph ! i) = 4"
    using assms
    by cases (auto simp: get_mp_between_indices_def edges_at_def ex1_graph_def ex_graph_def
        split: sum.splits if_splits)
  then have "i \<in> {0, 1, 2, 3}" "j \<in> {0, 1, 2, 3}" by auto
  with assms show ?thesis
    by (auto simp: get_mp_between_indices_def edges_at_def ex1_graph_def ex_graph_def
        split: sum.splits if_splits)
qed

lemma ex1_NormIndex: "NormIndex ex1_graph i = Inr i"
  by (simp add: NormIndex_def ex1_graph_def ex_graph_def)

lemma ex1_successor:
  assumes g: "graph gs = ex1_graph" and s: "successor gs p i = Some (mp, n)"
    and st: "state p = [real (state_index p)]"
  shows "state n = [real i]" "state_index n = i"
    "(state_index p, i, cost mp) \<in> {(0, 1, 1), (0, 2, 3), (1, 2, 1), (2, 3, 4)}"
proof -
  from s obtain j mp0 where j: "NormIndex (graph gs) (state_index p) = Inr j"
    and mp0: "get_mp_between_indices (graph gs) i j = Inr mp0" "mp = translate mp0 (state p)"
    and n: "n = \<lparr>state_index = i, state = end_state mp, motion_cost = motion_cost p + cost mp,
          heuristic_cost = heuristic gs (end_state mp)\<rparr>"
    by (rule successor_Some)
  from j g have jj: "j = state_index p" by (simp add: ex1_NormIndex)
  from mp0(1) g have "get_mp_between_indices ex1_graph i j = Inr mp0" by simp
  from ex1_edges [OF this] consider
    "i = 1" "j = 0" "mp0 = ex_mp 0 1 [0] [1]" | "i = 2" "j = 0" "mp0 = ex_mp 1 3 [0] [2]" |
    "i = 2" "j = 1" "mp0 = ex_mp 2 1 [1] [2]" | "i = 3" "j = 2" "mp0 = ex_mp 3 4 [2] [3]"
    by blast
  then have "end_state mp = [real i] \<and>
      (state_index p, i, cost mp) \<in> {(0, 1, 1), (0, 2, 3), (1, 2, 1), (2, 3, 4)}"
  proof cases
    case 1
    with jj st have "state p = [0]" by simp
    with 1 jj mp0(2) show ?thesis by (simp add: translate_def add_head_def ex_mp_def Let_def)
  next
    case 2
    with jj st have "state p = [0]" by simp
    with 2 jj mp0(2) show ?thesis by (simp add: translate_def add_head_def ex_mp_def Let_def)
  next
    case 3
    with jj st have "state p = [1]" by simp
    with 3 jj mp0(2) show ?thesis by (simp add: translate_def add_head_def ex_mp_def Let_def)
  next
    case 4
    with jj st have "state p = [2]" by simp
    with 4 jj mp0(2) show ?thesis by (simp add: translate_def add_head_def ex_mp_def Let_def)
  qed
  with n show "state n = [real i]" "state_index n = i"
    "(state_index p, i, cost mp) \<in> {(0, 1, 1), (0, 2, 3), (1, 2, 1), (2, 3, 4)}"
    by simp_all
qed

lemma ex1_reach:
  assumes g: "graph gs = ex1_graph" and r: "reach gs (start_node gs [0]) n"
  shows "state n = [real (state_index n)] \<and> state_index n < 4"
  using r
proof (induction rule: reach_induct)
  case start
  show ?case by (simp add: start_node_def)
next
  case (step p i mp n)
  then have s: "successor gs p i = Some (mp, n)" and pp: "state p = [real (state_index p)]"
    by simp_all
  from ex1_successor [OF g s pp] show ?case by auto
qed

lemma ex1_walk_rem:
  assumes g: "graph gs = ex1_graph"
  shows "walk gs n rows = Some (path, t) \<Longrightarrow> state n = [real (state_index n)] \<Longrightarrow>
    state_index t = 3 \<Longrightarrow> ex1_rem (state_index n) \<le> path_cost path"
proof (induction rows arbitrary: n path)
  case Nil
  then show ?case by (simp add: ex1_rem_def path_cost_def)
next
  case (Cons i rows)
  from Cons.prems(1) obtain mp n' path' where
    s: "successor gs n i = Some (mp, n')" and w: "walk gs n' rows = Some (path', t)"
    and p: "path = mp # path'"
    by (auto split: option.splits)
  from ex1_successor [OF g s Cons.prems(2)] have
    n': "state n' = [real (state_index n')]" "state_index n' = i"
    and e: "(state_index n, i, cost mp) \<in> {(0, 1, 1), (0, 2, 3), (1, 2, 1), (2, 3, 4)}"
    by simp_all
  from Cons.IH [OF w n'(1) Cons.prems(3)] n'(2) have "ex1_rem i \<le> path_cost path'" by simp
  with e p show ?case by (auto simp: ex1_rem_def path_cost_def)
qed

lemma ex1_goal_index:
  assumes "state t = [real (state_index t)]" "state_index t < 4"
    "state_pos_within (state t) [3] (spatial_dim ex1_graph) (1 / 2)"
  shows "state_index t = 3"
proof -
  from assms(2) have "state_index t \<in> {0, 1, 2, 3}" by auto
  with assms(1,3) show ?thesis
    by (auto simp: state_pos_within_def ex1_graph_def ex_graph_def)
qed

lemma ex1_walk_reach:
  assumes g: "graph gs = ex1_graph"
  shows "walk gs n rows = Some (path, t) \<Longrightarrow> state n = [real (state_index n)] \<Longrightarrow>
    state_index n < 4 \<Longrightarrow> state t = [real (state_index t)] \<and> state_index t < 4"
proof (induction rows arbitrary: n path)
  case Nil
  then show ?case by simp
next
  case (Cons i rows)
  from Cons.prems(1) obtain mp n' path' where
    s: "successor gs n i = Some (mp, n')" and w: "walk gs n' rows = Some (path', t)"
    by (auto split: option.splits)
  from ex1_successor [OF g s Cons.prems(2)] have
    "state n' = [real (state_index n')]" "state_index n' < 4"
    by auto
  with Cons.IH [OF w] show ?case by simp
qed

lemma ex1_admissible: "admissible ex1_gs (start_node ex1_gs [0]) [3] (1 / 2)"
  unfolding admissible_def
proof (intro allI impI conjI)
  have g: "graph ex1_gs = ex1_graph" by (simp add: ex1_gs_def)
  fix n
  assume r: "reach ex1_gs (start_node ex1_gs [0]) n"
  show "0 \<le> heuristic ex1_gs (state n)" by (simp add: ex1_gs_def)
  fix rows path t
  assume a: "walk ex1_gs n rows = Some (path, t) \<and>
      state_pos_within (state t) [3] (spatial_dim (graph ex1_gs)) (1 / 2)"
  from ex1_reach [OF g r] have n: "state n = [real (state_index n)]" "state_index n < 4"
    by simp_all
  from a ex1_walk_reach [OF g _ n] have t: "state t = [real (state_index t)]" "state_index t < 4"
    by blast+
  from a g have "state_pos_within (state t) [3] (spatial_dim ex1_graph) (1 / 2)" by simp
  from ex1_goal_index [OF t this] have "state_index t = 3" .
  with a ex1_walk_rem [OF g _ n(1)] have "ex1_rem (state_index n) \<le> path_cost path" by blast
  moreover have "heuristic ex1_gs (state n) \<le> ex1_rem (state_index n)"
    using n by (auto simp: ex1_gs_def ex1_rem_def)
  ultimately show "heuristic ex1_gs (state n) \<le> path_cost path" by simp
qed

lemma ex1_quantization_exact:
  assumes g: "graph gs = ex1_graph"
  shows "quantization_exact gs (start_node gs [0])"
  unfolding quantization_exact_def
proof (intro allI impI)
  fix n m
  assume a: "reach gs (start_node gs [0]) n \<and> reach gs (start_node gs [0]) m \<and>
      quantize (state n) = quantize (state m)"
  from a ex1_reach [OF g] have n: "state n = [real (state_index n)]" "state_index n < 4"
    and m: "state m = [real (state_index m)]" "state_index m < 4"
    by blast+
  from n(2) m(2) have "state_index n \<in> {0, 1, 2, 3}" "state_index m \<in> {0, 1, 2, 3}" by auto
  with a n(1) m(1) have "state_index n = state_index m"
    by (auto simp: quantize_def cast_int_def)
  with n(1) m(1) show "state n = state m" by simp
qed

lemma ex1_column_determined:
  assumes g: "graph gs = ex1_graph"
  shows "column_determined gs (start_node gs [0])"
  unfolding column_determined_def
proof (intro allI impI)
  fix n m
  assume a: "reach gs (start_node gs [0]) n \<and> reach gs (start_node gs [0]) m \<and>
      state n = state m"
  from a ex1_reach [OF g] have "state n = [real (state_index n)]" "state m = [real (state_index m)]"
    by blast+
  with a have "state_index n = state_index m" by simp
  then show "NormIndex (graph gs) (state_index n) = NormIndex (graph gs) (state_index m)"
    by simp
qed

lemma ex1_positive_costs: "graph gs = ex1_graph \<Longrightarrow> positive_costs gs"
  by (simp add: positive_costs_def ex1_graph_def ex_graph_def ex_mp_def)

lemma ex0_consistent: "consistent ex0_gs (start_node ex0_gs [0]) e d"
proof -
  have g: "graph ex0_gs = ex1_graph" by (simp add: ex0_gs_def)
  have "0 \<le> cost mp" if "successor ex0_gs p i = Some (mp, n)" for p i mp n
    using successor_positive [OF ex1_positive_costs [OF g] that] by simp
  moreover have "heuristic ex0_gs x = 0" for x by (simp add: ex0_gs_def)
  ultimately show ?thesis unfolding consistent_def by auto
qed

subsection \<open>The tiled lattice\<close>

lemma tile_NormIndex: "NormIndex tile_graph i = Inr 0"
  by (simp add: NormIndex_def tile_graph_def ex_graph_def edges_rows_def)

lemma tile_edges:
  assumes "get_mp_between_indices tile_graph i j = Inr mp0"
  shows "j = 0 \<and> (i = 1 \<and> mp0 = ex_mp 0 2 [0,0] [1,0] \<or> i = 2 \<and> mp0 = ex_mp 1 3 [0,0] [2,0])"
proof -
  from assms have "i < 3" "j < 1"
    by (auto simp: get_mp_between_indices_def edges_at_def tile_graph_def ex_graph_def
        nth_Cons' split: sum.splits if_splits)
  then have "i \<in> {0, 1, 2}" "j = 0" by auto
  with assms show ?thesis
    by (auto simp: get_mp_between_indices_def edges_at_def tile_graph_def ex_graph_def
        split: sum.splits if_splits)
qed

text \<open>From position \<open>x\<close>, row 1 leads one step ahead and row 2 two steps ahead.\<close>

lemma tile_successor:
  assumes g: "graph gs = tile_graph" and s: "successor gs p i = Some (mp, n)"
    and st: "state p = [x, 0]"
  shows "i = 1 \<and> mp = ex_mp 0 2 [x, 0] [x + 1, 0] \<and> state n = [x + 1, 0] \<or>
         i = 2 \<and> mp = ex_mp 1 3 [x, 0] [x + 2, 0] \<and> state n = [x + 2, 0]"
proof -
  from s obtain j mp0 where
    mp0: "get_mp_between_indices (graph gs) i j = Inr mp0" "mp = translate mp0 (state p)"
    and n: "state n = end_state mp"
    by (auto elim!: successor_Some)
  from mp0(1) g have "get_mp_between_indices tile_graph i j = Inr mp0" by simp
  from tile_edges [OF this] consider
    "i = 1" "mp0 = ex_mp 0 2 [0,0] [1,0]" | "i = 2" "mp0 = ex_mp 1 3 [0,0] [2,0]"
    by blast
  then show ?thesis
  proof cases
    case 1
    with mp0(2) st n show ?thesis
      by (simp add: translate_def add_head_def ex_mp_def Let_def add.commute)
  next
    case 2
    with mp0(2) st n show ?thesis
      by (simp add: translate_def add_head_def ex_mp_def Let_def add.commute)
  qed
qed

lemma tile_walk_states:
  assumes g: "graph gs = tile_graph"
  shows "walk gs n rows = Some (path, t) \<Longrightarrow> state n = [real k, 0] \<Longrightarrow>
    \<exists>k'. state t = [real k', 0]"
proof (induction rows arbitrary: n path k)
  case Nil
  then show ?case by auto
next
  case (Cons i rows)
  from Cons.prems(1) obtain mp n' path' where
    s: "successor gs n i = Some (mp, n')" and w: "walk gs n' rows = Some (path', t)"
    by (auto split: option.splits)
  from tile_successor [OF g s Cons.prems(2)]
  have "state n' = [real (k + 1), 0] \<or> state n' = [real (k + 2), 0]" by auto
  with Cons.IH [OF w] show ?case by blast
qed

lemma tile_reach:
  assumes g: "graph gs = tile_graph" and r: "reach gs (start_node gs [0, 0]) n"
  shows "\<exists>k. state n = [real k, 0]"
proof -
  from r obtain rows path where "walk gs (start_node gs [0, 0]) rows = Some (path, n)"
    unfolding reach_def by blast
  from tile_walk_states [OF g this, of 0] show ?thesis by (simp add: start_node_def)
qed

lemma quantize_position: "quantize [real k, 0] = [int k * 100, 0]"
proof -
  have "real k * 100 = of_int (int k * 100)" by simp
  then have "\<lfloor>real k * 100\<rfloor> = int k * 100" by (simp only: floor_of_int)
  then show ?thesis by (simp add: quantize_def cast_int_def)
qed

lemma tile_quantization_exact:
  assumes g: "graph gs = tile_graph"
  shows "quantization_exact gs (start_node gs [0, 0])"
  unfolding quantization_exact_def
proof (intro allI impI)
  fix n m
  assume a: "reach gs (start_node gs [0, 0]) n \<and> reach gs (start_node gs [0, 0]) m \<and>
      quantize (state n) = quantize (state m)"
  with tile_reach [OF g] obtain k k' where "state n = [real k, 0]" "state m = [real k', 0]"
    by blast
  with a show "state n = state m" by (simp add: quantize_position)
qed

lemma tile_column_determined:
  "graph gs = tile_graph \<Longrightarrow> column_determined gs s0"
  by (simp add: column_determined_def tile_NormIndex)

lemma tile_positive_costs: "graph gs = tile_graph \<Longrightarrow> positive_costs gs"
  by (simp add: positive_costs_def tile_graph_def ex_graph_def ex_mp_def)

lemma tile_dims_ok: "graph gs = tile_graph \<Longrightarrow> dims_ok gs [0, 0]"
  by (simp add: dims_ok_def tile_graph_def ex_graph_def ex_mp_def)

lemma tile_primitives_chain: "primitives_chain tile_graph"
  unfolding primitives_chain_def
proof (intro allI impI)
  fix i j k i' m m'
  assume "get_mp_between_indices tile_graph i j = Inr m \<and> NormIndex tile_graph i = Inr k \<and>
      get_mp_between_indices tile_graph i' k = Inr m'"
  then have "m \<in> {ex_mp 0 2 [0,0] [1,0], ex_mp 1 3 [0,0] [2,0]}"
    "m' \<in> {ex_mp 0 2 [0,0] [1,0], ex_mp 1 3 [0,0] [2,0]}"
    by (auto dest: tile_edges)
  then show "drop (spatial_dim tile_graph) (end_state m)
      = drop (spatial_dim tile_graph) (start_state m')"
    by (auto simp: tile_graph_def ex_graph_def ex_mp_def)
qed

lemma tile_start_fits: "start_fits tile_graph [0, 0]"
  unfolding start_fits_def
proof (intro allI impI)
  fix k i m
  assume "NormIndex tile_graph 0 = Inr k \<and> get_mp_between_indices tile_graph i k = Inr m"
  then have "m \<in> {ex_mp 0 2 [0,0] [1,0], ex_mp 1 3 [0,0] [2,0]}"
    by (auto dest: tile_edges)
  then show "drop (spatial_dim tile_graph) (start_state m) = drop (spatial_dim tile_graph) [0, 0]"
    by (auto simp: tile_graph_def ex_graph_def ex_mp_def)
qed

text \<open>Among the positions on the lattice, only position 3 is within \<open>1/2\<close> of position 3.\<close>

lemma tile_goal_position:
  assumes "state_pos_within [real k, 0] [3, 0] (spatial_dim tile_graph) (1 / 2)"
  shows "k = 3"
proof (rule ccontr)
  assume "k \<noteq> 3"
  then have "k \<le> 2 \<or> 4 \<le> k" by arith
  then have "1 \<le> \<bar>real k - 3\<bar>" by auto
  then have "1 * 1 \<le> \<bar>real k - 3\<bar> * \<bar>real k - 3\<bar>" by (intro mult_mono) simp_all
  then have "1 \<le> (real k - 3) * (real k - 3)" by simp
  with assms show False
    by (simp add: state_pos_within_def tile_graph_def ex_graph_def)
qed

lemma tile_consistent:
  assumes g: "graph gs = tile_graph" and h: "heuristic gs = (\<lambda>s. max 0 (3 - hd s))"
  shows "consistent gs (start_node gs [0, 0]) [3, 0] (1 / 2)"
  unfolding consistent_def
proof (intro conjI allI impI)
  fix p i mp n
  assume a: "reach gs (start_node gs [0, 0]) p \<and> successor gs p i = Some (mp, n)"
  with tile_reach [OF g] obtain k where k: "state p = [real k, 0]" by blast
  from a have s: "successor gs p i = Some (mp, n)" by simp
  from tile_successor [OF g s k] have
    "cost mp = 2 \<and> state n = [real k + 1, 0] \<or> cost mp = 3 \<and> state n = [real k + 2, 0]"
    by (auto simp: ex_mp_def)
  with k h show "heuristic gs (state p) \<le> cost mp + heuristic gs (state n)" by auto
next
  fix t
  assume a: "reach gs (start_node gs [0, 0]) t \<and>
      state_pos_within (state t) [3, 0] (spatial_dim (graph gs)) (1 / 2)"
  with tile_reach [OF g] obtain k where k: "state t = [real k, 0]" by blast
  with a g have "state_pos_within [real k, 0] [3, 0] (spatial_dim tile_graph) (1 / 2)" by simp
  then have "k = 3" by (rule tile_goal_position)
  with k h show "heuristic gs (state t) = 0" by simp
qed

section \<open>The returned primitives chain\<close>

text \<open>
  C4, as amended: on a graph whose quantization merges no two distinct reachable states
  and whose states are at least \<open>spatial_dim\<close> long, every non-empty path
  \<open>[mp_0, \<dots>, mp_{k-1}]\<close> that \<^verbatim>\<open>Search\<close> returns chains on the position: the first
  \<open>spatial_dim\<close> components of \<open>mp_i.end_state\<close> are those of \<open>mp_{i+1}.start_state\<close>.
  When every primitive of the bank that enters a row ends with the remaining components
  with which the primitives that leave the column of that row start, \<open>mp_i.end_state\<close> is
  \<open>mp_{i+1}.start_state\<close>. \<open>mp_{k-1}.end_state\<close> is the state of the node that passed the
  goal test (the top of the queue at the return). When the primitives have positive costs
  and the path is returned unchanged when \<^verbatim>\<open>ros::ok()\<close> answers true once more (the
  reconstruction was not cut short by a shutdown), the position of \<open>mp_0.start_state\<close> is
  that of \<open>start_state\<close>, and \<open>mp_0.start_state\<close> is \<open>start_state\<close> when the primitives that
  leave the column of row 0 start with the remaining components of \<open>start_state\<close>.
\<close>

theorem Search_path_chains:
  assumes "quantization_exact gs (start_node gs start_st)" and "dims_ok gs start_st"
    and "Search gs hs ok members start_st end_st d parallel = (Inr path, s')" and "path \<noteq> []"
  shows "(\<forall>i. Suc i < length path \<longrightarrow>
            take (spatial_dim (graph gs)) (end_state (path ! i))
              = take (spatial_dim (graph gs)) (start_state (path ! Suc i))) \<and>
         (primitives_chain (graph gs) \<longrightarrow>
            (\<forall>i. Suc i < length path \<longrightarrow> end_state (path ! i) = start_state (path ! Suc i))) \<and>
         end_state (last path) = state (pq_top (pq s')) \<and>
         state_pos_within (state (pq_top (pq s'))) end_st (spatial_dim (graph gs)) d \<and>
         (positive_costs gs \<and>
          fst (Search gs hs (Suc ok) members start_st end_st d parallel) = Inr path \<longrightarrow>
            take (spatial_dim (graph gs)) (start_state (hd path))
              = take (spatial_dim (graph gs)) start_st \<and>
            (start_fits (graph gs) start_st \<longrightarrow> start_state (hd path) = start_st))"
proof -
  let ?sd = "spatial_dim (graph gs)"
  let ?s0 = "start_node gs start_st"
  let ?c = "pq_top (pq s')"
  from Search_suffix [OF assms(1,3,4)] obtain rows full j where
    w: "walk gs ?s0 rows = Some (full, ?c)" and p: "path = drop j full"
    and g: "state_pos_within (state ?c) end_st ?sd d"
    by blast
  from assms(2) have len: "?sd \<le> length (state ?s0)"
    by (simp add: dims_ok_def start_node_def)
  from p assms(4) have j: "j < length full" by simp
  have nth: "path ! i = full ! (j + i)" for i using p j by simp
  have lt: "Suc (j + i) < length full" if "Suc i < length path" for i
    using that p by simp
  note wc = walk_chain [OF assms(2) w len]
  have 1: "take ?sd (end_state (path ! i)) = take ?sd (start_state (path ! Suc i))"
    if "Suc i < length path" for i
    using wc lt [OF that] by (simp add: nth)
  have 2: "end_state (path ! i) = start_state (path ! Suc i)"
    if "primitives_chain (graph gs)" "Suc i < length path" for i
    using walk_chain_whole [OF assms(2) that(1) w len lt [OF that(2)]] by (simp add: nth)
  from j have "full \<noteq> []" by auto
  with wc p j have 3: "end_state (last path) = state ?c" by simp
  have 4: "take ?sd (start_state (hd path)) = take ?sd start_st \<and>
      (start_fits (graph gs) start_st \<longrightarrow> start_state (hd path) = start_st)"
    if "positive_costs gs"
      "fst (Search gs hs (Suc ok) members start_st end_st d parallel) = Inr path"
  proof -
    from Search_sound(1) [OF assms(1) that(1) assms(3,4) that(2)] obtain rows' where
      w': "walk gs ?s0 rows' = Some (path, ?c)"
      by blast
    from walk_chain [OF assms(2) w' len] assms(4)
    have "take ?sd (start_state (hd path)) = take ?sd start_st"
      by (simp add: start_node_def)
    moreover have "start_state (hd path) = start_st" if "start_fits (graph gs) start_st"
      using assms(2) that w' assms(4) by (rule walk_start_whole)
    ultimately show ?thesis by simp
  qed
  from 1 2 3 4 g show ?thesis by blast
qed

theorem Search_path_chains_witness:
  "quantization_exact tile_gs (start_node tile_gs [0, 0]) \<and> dims_ok tile_gs [0, 0] \<and>
   fst (Search tile_gs tile_host 100 ex_members [0, 0] [3, 0] (1 / 2) False) = Inr tile_serial \<and>
   tile_serial \<noteq> [] \<and> length tile_serial = 2 \<and>
   primitives_chain (graph tile_gs) \<and> positive_costs tile_gs \<and>
   fst (Search tile_gs tile_host (Suc 100) ex_members [0, 0] [3, 0] (1 / 2) False)
     = Inr tile_serial \<and>
   start_fits (graph tile_gs) [0, 0] \<and>
   take (spatial_dim (graph tile_gs)) (end_state (tile_serial ! 0))
     = take (spatial_dim (graph tile_gs)) (start_state (tile_serial ! Suc 0)) \<and>
   end_state (tile_serial ! 0) = start_state (tile_serial ! Suc 0) \<and>
   end_state (last tile_serial)
     = state (pq_top (pq (snd (Search tile_gs tile_host 100 ex_members [0, 0] [3, 0] (1 / 2) False)))) \<and>
   state_pos_within
     (state (pq_top (pq (snd (Search tile_gs tile_host 100 ex_members [0, 0] [3, 0] (1 / 2) False)))))
     [3, 0] (spatial_dim (graph tile_gs)) (1 / 2) \<and>
   take (spatial_dim (graph tile_gs)) (start_state (hd tile_serial))
     = take (spatial_dim (graph tile_gs)) [0, 0] \<and>
   start_state (hd tile_serial) = [0, 0]"
proof -
  have g: "graph tile_gs = tile_graph" by (simp add: tile_gs_def)
  have a: "fst (Search tile_gs tile_host 100 ex_members [0, 0] [3, 0] (1 / 2) False)
      = Inr tile_serial"
    by code_simp
  have b: "fst (Search tile_gs tile_host (Suc 100) ex_members [0, 0] [3, 0] (1 / 2) False)
      = Inr tile_serial"
    by code_simp
  have e: "tile_serial \<noteq> []" and l: "length tile_serial = 2" by (simp_all add: tile_serial_def)
  from a have f: "Search tile_gs tile_host 100 ex_members [0, 0] [3, 0] (1 / 2) False
      = (Inr tile_serial,
         snd (Search tile_gs tile_host 100 ex_members [0, 0] [3, 0] (1 / 2) False))"
    by (metis prod.collapse)
  note h = tile_quantization_exact [OF g] tile_dims_ok [OF g]
  have c: "primitives_chain (graph tile_gs)" "start_fits (graph tile_gs) [0, 0]"
    using tile_primitives_chain tile_start_fits by (simp_all add: g)
  note pc = tile_positive_costs [OF g]
  from Search_path_chains [OF h f e] l h a b e c pc show ?thesis by simp
qed

text \<open>
  C4 as the spec states it fails in four ways. A start state whose velocity differs from
  that of vertex 0 (\<open>[0, 1]\<close> against \<open>[0, 0]\<close>): \<^verbatim>\<open>translate\<close> moves the position only, so
  the first primitive starts at the quantized state \<open>[0, 0]\<close>, not at \<open>[0, 100]\<close>. A
  shutdown during the reconstruction (five polls of \<^verbatim>\<open>ros::ok()\<close> answered true on the
  first example graph): the path returned is the last primitive alone, which starts at
  position 2, not at the start position 0. A bank whose primitive into vertex 1 ends with
  velocity 5 while the primitive out of vertex 1 starts with velocity 0: the first
  returned primitive ends at the quantized state \<open>[100, 500]\<close>, the second starts at
  \<open>[100, 0]\<close>. And a first primitive that costs nothing: the reconstruction stops at the
  node it reaches, whose \<^verbatim>\<open>motion_cost\<close> is 0, and the path returned (the same with one
  more poll) starts at position 1.
\<close>

theorem Search_path_not_anchored:
  "map_sum (\<lambda>f. f) (map (quantize \<circ> start_state))
     (fst (Search ex4_gs ex_host 100 ex_members [0, 1] [1, 0] (1 / 2) False)) = Inr [[0, 0]] \<and>
   quantize [0, 1] = [0, 100] \<and>
   map_sum (\<lambda>f. f) (map (quantize \<circ> start_state))
     (fst (Search ex1_gs ex_host 5 ex_members [0] [3] (1 / 2) False)) = Inr [[200]] \<and>
   quantize [0] = [0] \<and>
   map_sum (\<lambda>f. f) (map (\<lambda>m. (quantize (start_state m), quantize (end_state m))))
     (fst (Search ex5_gs ex_host 100 ex_members [0, 0] [2, 0] (1 / 2) False))
     = Inr [([0, 0], [100, 500]), ([100, 0], [200, 0])] \<and>
   map_sum (\<lambda>f. f) (map (quantize \<circ> start_state))
     (fst (Search ex6_gs ex_host 100 ex_members [0] [2] (1 / 2) False)) = Inr [[100]] \<and>
   fst (Search ex6_gs ex_host (Suc 100) ex_members [0] [2] (1 / 2) False)
     = fst (Search ex6_gs ex_host 100 ex_members [0] [2] (1 / 2) False)"
  by code_simp

section \<open>Minimal cost\<close>




text \<open>
  The conditions on the lattice are needed as well. On the graph with two vertices at
  position 1, nodes with the same state have different columns: the state is closed with
  the node of row 1, whose way on costs 10, and the path returned costs 11, while the
  walk over the rows 2 and 3 costs 3. On the graph with the vertices \<open>2.001\<close> and \<open>2.002\<close>,
  which share a quantized state, the path returned costs 8, while the walk over row 2
  costs 5. Either heuristic is zero everywhere.
\<close>

lemma Search_lattice_conditions_needed:
  "map_sum (\<lambda>f. f) path_cost (fst (Search ex7_gs ex_host 100 ex_members [0] [2] (1 / 2) False))
     = Inr 11 \<and>
   fst (Search ex7_gs ex_host (Suc 100) ex_members [0] [2] (1 / 2) False)
     = fst (Search ex7_gs ex_host 100 ex_members [0] [2] (1 / 2) False) \<and>
   map_option (\<lambda>(path, t). (path_cost path,
       state_pos_within (state t) [2] (spatial_dim (graph ex7_gs)) (1 / 2)))
     (walk ex7_gs (start_node ex7_gs [0]) [2, 3]) = Some (3, True) \<and>
   map_sum (\<lambda>f. f) path_cost (fst (Search ex3_gs ex_host 100 ex_members [0] [2] (3 / 2000) False))
     = Inr 8 \<and>
   fst (Search ex3_gs ex_host (Suc 100) ex_members [0] [2] (3 / 2000) False)
     = fst (Search ex3_gs ex_host 100 ex_members [0] [2] (3 / 2000) False) \<and>
   map_option (\<lambda>(path, t). (path_cost path,
       state_pos_within (state t) [2] (spatial_dim (graph ex3_gs)) (3 / 2000)))
     (walk ex3_gs (start_node ex3_gs [0]) [2]) = Some (5, True)"
  by code_simp

section \<open>Serial and parallel search\<close>




section \<open>The returned primitives are collision free\<close>




end
